theory Spec2Isabelle
  imports Main "HOL-Library.Sublist"
begin

section \<open>The MQTT session client of aiophyn (mqtt.py)\<close>

text \<open>
  The client is a single-threaded asyncio program. Its state is the attribute set of
  \<^verbatim>\<open>MQTTClient\<close>; every method is a function from state to state, every
  exception is a value, and every \<^verbatim>\<open>await\<close> is a point where the environment
  says what the awaited operation did and which transport callbacks ran meanwhile.
\<close>

subsection \<open>Exceptions, effects, state\<close>

text \<open>The exception types that occur. Only \<open>CancelledError\<close> is not a subclass of
  Python's \<^verbatim>\<open>Exception\<close>; the string is the exception's argument.\<close>

datatype exc =
    CancelledError
  | TimeoutError
  | RequestError string
  | KeyError string
  | IndexError
  | UnboundLocalError string
  | TypeError string
  | UnicodeDecodeError
  | PyException string

fun is_Exception :: "exc \<Rightarrow> bool" where
  "is_Exception CancelledError = False"
| "is_Exception _ = True"

datatype level = DEBUG | INFO | WARNING | ERROR

text \<open>Observable effects, recorded in the order in which the code performs them.\<close>

datatype event =
    is_Log: Log level string   \<comment> \<open>a \<^verbatim>\<open>_LOGGER\<close> call, with its format string\<close>
  | is_Sleep: Sleep nat        \<comment> \<open>\<^verbatim>\<open>asyncio.sleep(t)\<close>\<close>
  | is_Request: Request        \<comment> \<open>\<^verbatim>\<open>api._request\<close> for the iot_policy\<close>
  | is_Connect: Connect string \<comment> \<open>\<^verbatim>\<open>client.connect(host, port)\<close>\<close>
  | is_Subscribe: Subscribe string  \<comment> \<open>\<^verbatim>\<open>client.subscribe(topic, 0)\<close>\<close>
  | is_AckSet: AckSet nat      \<comment> \<open>\<^verbatim>\<open>ack_evt.set()\<close> on the event with this identity\<close>
  | is_CreateTask: CreateTask nat  \<comment> \<open>\<^verbatim>\<open>asyncio.create_task(self._do_reconnect(True))\<close>\<close>

type_synonym handler = nat
type_synonym evt = nat

text \<open>A value of \<^verbatim>\<open>pending_acks\<close>: the old format is the topic alone, the new
  format the tuple of the topic and the waiter's event.\<close>

datatype pending_info = TopicOnly string | TopicEvt string evt

text \<open>The message id returned by \<^verbatim>\<open>client.subscribe\<close> is \<^verbatim>\<open>None\<close> when the
  transport refuses the call, so the keys of \<^verbatim>\<open>pending_acks\<close> are optional ids.\<close>

record mqtt_client =
  pending_acks :: "nat option \<rightharpoonup> pending_info"
  topics :: "string list"
  connect_evt :: bool
  connect_task :: "nat option"
  disconnect_evt :: "bool option"
  reconnect_evt :: bool
  host :: "string option"
  reconnect_timer :: "nat option"   \<comment> \<open>\<^verbatim>\<open>Timer._task\<close>: the timeout of the job, if any\<close>
  handlers :: "string \<rightharpoonup> handler list"
  ack_flags :: "evt \<Rightarrow> bool"         \<comment> \<open>flags of the events made by \<^verbatim>\<open>_subscribe_with_ack\<close>\<close>
  next_evt :: evt
  next_task :: nat
  trace :: "event list"

definition emit :: "event \<Rightarrow> mqtt_client \<Rightarrow> mqtt_client" where
  "emit e s = s\<lparr>trace := trace s @ [e]\<rparr>"

definition log :: "level \<Rightarrow> string \<Rightarrow> mqtt_client \<Rightarrow> mqtt_client" where
  "log l m s = emit (Log l m) s"

text \<open>\<^verbatim>\<open>MQTTClient.__init__\<close>.\<close>

definition init_client :: mqtt_client where
  "init_client =
     \<lparr> pending_acks = Map.empty, topics = [], connect_evt = False, connect_task = None,
       disconnect_evt = None, reconnect_evt = False, host = None, reconnect_timer = None,
       handlers = [''connect'' \<mapsto> [], ''disconnect'' \<mapsto> [], ''update'' \<mapsto> []],
       ack_flags = (\<lambda>_. False), next_evt = 0, next_task = 0,
       trace = [Log INFO ''Creating timer''] \<rparr>"

subsection \<open>Timer\<close>

definition timer_cancel :: "mqtt_client \<Rightarrow> mqtt_client" where
  "timer_cancel s = s\<lparr>reconnect_timer := None\<rparr>"

definition timer_start :: "nat \<Rightarrow> mqtt_client \<Rightarrow> mqtt_client" where
  "timer_start timeout s =
     (log DEBUG ''Starting timer job for %s seconds'' s)\<lparr>reconnect_timer := Some timeout\<rparr>"

subsection \<open>Handler registration\<close>

text \<open>\<^verbatim>\<open>add_event_handler\<close> returns \<^verbatim>\<open>False\<close> for an unknown kind, \<^verbatim>\<open>True\<close> for a
  target that is already registered and \<^verbatim>\<open>None\<close> after appending.\<close>

definition add_event_handler ::
  "string \<Rightarrow> handler \<Rightarrow> mqtt_client \<Rightarrow> bool option \<times> mqtt_client" where
  "add_event_handler kind target s =
     (case handlers s kind of
        None \<Rightarrow> (Some False, s)
      | Some hs \<Rightarrow>
          if target \<in> set hs then (Some True, s)
          else (None, s\<lparr>handlers := (handlers s)(kind \<mapsto> hs @ [target])\<rparr>))"

subsection \<open>Subscriptions and their acknowledgments\<close>

text \<open>\<^verbatim>\<open>subscribe\<close>, the fire-and-forget variant: \<open>r\<close> is what
  \<^verbatim>\<open>client.subscribe\<close> returned, stored whatever the result code is.\<close>

definition subscribe :: "string \<Rightarrow> int \<times> nat option \<Rightarrow> mqtt_client \<Rightarrow> mqtt_client" where
  "subscribe topic r s =
     (let s1 = log INFO ''Attempting to subscribe to: %s'' s;
          s2 = emit (Subscribe topic) s1
      in s2\<lparr>pending_acks := (pending_acks s2)(snd r \<mapsto> TopicOnly topic)\<rparr>)"

text \<open>\<^verbatim>\<open>_on_subscribe\<close>, the transport's SUBACK callback for message id \<open>mid\<close>.\<close>

definition add_topic :: "string \<Rightarrow> mqtt_client \<Rightarrow> mqtt_client" where
  "add_topic topic s = (if topic \<in> set (topics s) then s else s\<lparr>topics := topics s @ [topic]\<rparr>)"

definition ack_evt_set :: "evt \<Rightarrow> mqtt_client \<Rightarrow> mqtt_client" where
  "ack_evt_set e s = emit (AckSet e) (s\<lparr>ack_flags := (ack_flags s)(e := True)\<rparr>)"

definition on_subscribe :: "nat \<Rightarrow> mqtt_client \<Rightarrow> mqtt_client" where
  "on_subscribe mid s =
     (case pending_acks s (Some mid) of
        Some pending_info \<Rightarrow>
          (let s1 = (case pending_info of
                       TopicEvt topic ack_evt \<Rightarrow>
                         ack_evt_set ack_evt (add_topic topic (log INFO ''Subscribed to: %s'' s))
                     | TopicOnly topic \<Rightarrow>
                         add_topic topic (log INFO ''Subscribed to: %s'' s))
           in s1\<lparr>pending_acks := (pending_acks s1)(Some mid := None)\<rparr>)
      | None \<Rightarrow> log INFO ''Subscribed: %s %s %s'' s)"

subsection \<open>Transport callbacks\<close>

text \<open>\<^verbatim>\<open>_on_connect\<close> with the reason code of the CONNACK.\<close>

definition on_connect :: "int \<Rightarrow> mqtt_client \<Rightarrow> mqtt_client" where
  "on_connect reason_code s =
     (let s1 = log INFO ''MQTT Client Connected'' s
      in if reason_code = 0 then
           (timer_start 3600 (timer_cancel (log INFO ''Trying to run timer...'' s1)))
             \<lparr>connect_evt := True\<rparr>
         else log INFO ''MQTT Connection Failed: %s'' s1)"

definition create_reconnect_task :: "mqtt_client \<Rightarrow> mqtt_client" where
  "create_reconnect_task s =
     (emit (CreateTask (next_task s)) s)
       \<lparr>connect_task := Some (next_task s), next_task := Suc (next_task s)\<rparr>"

text \<open>\<^verbatim>\<open>_on_disconnect\<close>; \<open>is_connected\<close> is what the transport's
  \<^verbatim>\<open>is_connected()\<close> answers when the callback runs.\<close>

definition on_disconnect :: "bool \<Rightarrow> mqtt_client \<Rightarrow> mqtt_client" where
  "on_disconnect is_connected s =
     (let s1 =
        (case disconnect_evt s of
           Some _ \<Rightarrow>
             log INFO ''Client disconnected, not attempting to reconnect''
               (s\<lparr>disconnect_evt := Some True\<rparr>)
         | None \<Rightarrow>
             if is_connected then
               (let s2 = timer_cancel (log INFO ''MQTT Server Disconnected, reason: %s'' s)
                in if connect_task s2 = None then create_reconnect_task s2 else s2)
             else s)
      in s1\<lparr>connect_evt := False\<rparr>)"

text \<open>The callbacks that the event loop may run while a coroutine is suspended.\<close>

datatype callback = OnConnect int | OnDisconnect bool | OnSubscribe nat

fun deliver :: "callback \<Rightarrow> mqtt_client \<Rightarrow> mqtt_client" where
  "deliver (OnConnect reason_code) s = on_connect reason_code s"
| "deliver (OnDisconnect is_connected) s = on_disconnect is_connected s"
| "deliver (OnSubscribe mid) s = on_subscribe mid s"

fun deliver_all :: "callback list \<Rightarrow> mqtt_client \<Rightarrow> mqtt_client" where
  "deliver_all [] s = s"
| "deliver_all (c # cs) s = deliver_all cs (deliver c s)"

subsection \<open>Fetching the connection info\<close>

text \<open>The pattern \<^verbatim>\<open>wss:\/\/([a-zA-Z0-9\.\-]+)(\/mqtt?.*)\<close>, matched at the start of
  the string: the host is the longest run of host characters (the next character must be
  the slash, which is no host character), the path runs to the end of the line.\<close>

definition host_char :: "char \<Rightarrow> bool" where
  "host_char c =
     (let n = (of_char c :: nat)
      in (97 \<le> n \<and> n \<le> 122) \<or> (65 \<le> n \<and> n \<le> 90) \<or> (48 \<le> n \<and> n \<le> 57)
         \<or> c = CHR ''.'' \<or> c = CHR ''-'')"

definition match_wss :: "string \<Rightarrow> (string \<times> string) option" where
  "match_wss url =
     (if take 6 url = ''wss://'' then
        (let rest = drop 6 url;
             h = takeWhile host_char rest;
             r = dropWhile host_char rest
         in if h \<noteq> [] \<and> take 4 r = ''/mqt''
            then Some (h, takeWhile (\<lambda>c. c \<noteq> CHR 0x0A) r) else None)
      else None)"

text \<open>\<^verbatim>\<open>get_mqtt_info\<close>; \<open>response\<close> is what \<^verbatim>\<open>await self.api._request(...)\<close>
  did: it raised, or it returned the dictionary. The bare \<^verbatim>\<open>except:\<close> catches whatever
  was raised and builds an exception object without raising it, so the local \<^verbatim>\<open>wss_data\<close>
  stays unbound and the next line fails on it.\<close>

definition get_mqtt_info :: "exc + (string \<rightharpoonup> string) \<Rightarrow> exc + string \<times> string" where
  "get_mqtt_info response =
     (let wss_data = (case response of Inl e \<Rightarrow> None | Inr d \<Rightarrow> Some d)
      in case wss_data of
           None \<Rightarrow> Inl (UnboundLocalError ''wss_data'')
         | Some d \<Rightarrow>
             (case d ''wss_url'' of
                None \<Rightarrow> Inl (KeyError ''wss_url'')
              | Some url \<Rightarrow>
                  (case match_wss url of
                     None \<Rightarrow> Inl (PyException ''Could not find WebSocket/MQTT url'')
                   | Some m \<Rightarrow> Inr m)))"

subsection \<open>Message dispatch\<close>

text \<open>\<^verbatim>\<open>str.split(sep)\<close> for a one-character separator.\<close>

fun split_on :: "char \<Rightarrow> string \<Rightarrow> string list" where
  "split_on sep [] = [[]]"
| "split_on sep (c # cs) =
     (if c = sep then [] # split_on sep cs
      else (case split_on sep cs of p # ps \<Rightarrow> (c # p) # ps | [] \<Rightarrow> [[c]]))"

text \<open>What the call \<^verbatim>\<open>h(device_id, data)\<close> of a registered target does. The
  registration accepts any object: a coroutine function returns an awaitable without
  running, any other callable runs at once and returns something that is no awaitable, or
  raises.\<close>

datatype call_result = Awaitable | NotAwaitable | CallRaises exc

text \<open>The loop over the update handlers, with the calls made, in order, and the
  exception that ended the loop, if any. Each call reads the local \<^verbatim>\<open>data\<close>, which is
  unbound (\<open>None\<close> here) when decoding failed; \<^verbatim>\<open>asyncio.ensure_future\<close> raises
  \<^verbatim>\<open>TypeError\<close> for a result that is no awaitable.\<close>

fun call_handlers ::
  "(handler \<Rightarrow> call_result) \<Rightarrow> handler list \<Rightarrow> string option \<Rightarrow> 'j option
     \<Rightarrow> (handler \<times> string option \<times> 'j) list \<times> exc option" where
  "call_handlers call [] device_id data = ([], None)"
| "call_handlers call (h # hs) device_id data =
     (case data of
        None \<Rightarrow> ([], Some (UnboundLocalError ''data''))
      | Some d \<Rightarrow>
          (case call h of
             Awaitable \<Rightarrow>
               (case call_handlers call hs device_id data of
                  (calls, raised) \<Rightarrow> ((h, device_id, d) # calls, raised))
           | NotAwaitable \<Rightarrow>
               ([(h, device_id, d)],
                Some (TypeError ''An asyncio.Future, a coroutine or an awaitable is required''))
           | CallRaises e \<Rightarrow> ([(h, device_id, d)], Some e)))"

text \<open>\<^verbatim>\<open>_on_message\<close> for a message with the given topic and payload bytes.
  \<open>decode\<close> is \<^verbatim>\<open>bytes.decode\<close>, \<open>None\<close> where it raises \<^verbatim>\<open>UnicodeDecodeError\<close>;
  \<open>json_loads\<close> is the JSON parser of the standard library, \<open>None\<close> where it raises
  \<^verbatim>\<open>JSONDecodeError\<close>; \<open>call\<close> says what calling each target does. The result is the log
  lines written, the handler calls made, in order, and the exception raised, if any.\<close>

definition on_message ::
  "(string \<Rightarrow> string option) \<Rightarrow> (string \<Rightarrow> 'j option) \<Rightarrow> (handler \<Rightarrow> call_result)
     \<Rightarrow> mqtt_client \<Rightarrow> string \<Rightarrow> string
     \<Rightarrow> event list \<times> (handler \<times> string option \<times> 'j) list \<times> exc option" where
  "on_message decode json_loads call s topic payload =
     (case decode payload of
        None \<Rightarrow> ([], [], Some UnicodeDecodeError)
      | Some msg \<Rightarrow>
          (let data = json_loads msg;
               logs = Log DEBUG ''Message received on %s: %s'' #
                      (if data = None then [Log INFO ''Received invalid JSON message: %s'']
                       else []);
               device_id =
                 (if prefix ''prd/app_subscriptions/'' topic then
                    (let parts = split_on CHR ''/'' topic
                     in if 2 < length parts then Inr (Some (parts ! 2)) else Inl IndexError)
                  else Inr None)
           in case device_id of
                Inl e \<Rightarrow> (logs, [], Some e)
              | Inr dev \<Rightarrow>
                  (case handlers s ''update'' of
                     None \<Rightarrow> (logs, [], Some (KeyError ''update''))
                   | Some hs \<Rightarrow>
                       (case call_handlers call hs dev data of
                          (calls, raised) \<Rightarrow> (logs, calls, raised)))))"

subsection \<open>Subscribing with acknowledgment\<close>

text \<open>What the environment does during one \<^verbatim>\<open>_subscribe_with_ack\<close> call made by the
  reconnect loop: the result of \<^verbatim>\<open>client.subscribe\<close>, the callbacks that run while the
  call waits on its event, the exception that ends the wait when the event is still unset
  (\<open>TimeoutError\<close> from the call's own timeout, or \<open>CancelledError\<close>), and whether that
  cancellation came from the expiry of the loop's own \<^verbatim>\<open>asyncio.timeout(5)\<close>, which turns
  it into \<open>TimeoutError\<close>.\<close>

record sub_env =
  subscribe_returns :: "exc + int \<times> nat option"
  ack_callbacks :: "callback list"
  ack_wait_raises :: exc
  outer_expired :: bool

definition ack_timeout :: "exc \<Rightarrow> exc" where
  "ack_timeout e = (if e = TimeoutError then RequestError ''Subscription ACK timeout for %s'' else e)"

text \<open>\<^verbatim>\<open>_subscribe_with_ack\<close> up to its \<^verbatim>\<open>await\<close>: given what \<^verbatim>\<open>client.subscribe\<close>
  did, the call has returned or raised already, or it waits on its new event for the
  acknowledgment of the message id it stored.\<close>

datatype sent = Returned "exc + int \<times> nat option" | Waiting evt int "nat option"

definition send_subscribe ::
  "string \<Rightarrow> exc + int \<times> nat option \<Rightarrow> mqtt_client \<Rightarrow> sent \<times> mqtt_client" where
  "send_subscribe topic r s =
     (let ack_evt = next_evt s;
          s0 = s\<lparr>next_evt := Suc ack_evt, ack_flags := (ack_flags s)(ack_evt := False)\<rparr>;
          s1 = emit (Subscribe topic) s0
      in case r of
           Inl e \<Rightarrow> (Returned (Inl (ack_timeout e)), s1)
         | Inr (res, msg_id) \<Rightarrow>
             if res \<noteq> 0 then
               (Returned (Inr (res, msg_id)),
                log ERROR ''Failed to initiate subscription to %s: %s'' s1)
             else
               (Waiting ack_evt res msg_id,
                s1\<lparr>pending_acks := (pending_acks s1)(msg_id \<mapsto> TopicEvt topic ack_evt)\<rparr>))"

text \<open>The whole call: after the callbacks that run during the wait, the event is set and
  the call returns, or the wait ends with the environment's exception.\<close>

definition subscribe_with_ack ::
  "string \<Rightarrow> sub_env \<Rightarrow> mqtt_client \<Rightarrow> (exc + int \<times> nat option) \<times> mqtt_client" where
  "subscribe_with_ack topic env s =
     (case send_subscribe topic (subscribe_returns env) s of
        (Returned r, s1) \<Rightarrow> (r, s1)
      | (Waiting ack_evt res msg_id, s2) \<Rightarrow>
          (let s3 = deliver_all (ack_callbacks env) s2
           in if ack_flags s3 ack_evt then (Inr (res, msg_id), s3)
              else (Inl (ack_timeout (ack_wait_raises env)), s3)))"

subsection \<open>The reconnect cycle\<close>

text \<open>The stale entries are removed key by key.\<close>

definition clear_stale_acks :: "mqtt_client \<Rightarrow> mqtt_client" where
  "clear_stale_acks s =
     (let stale_acks = dom (pending_acks s)
      in if stale_acks \<noteq> {} then
           (let s1 = log DEBUG ''Cleaning up %d stale pending_acks'' s
            in s1\<lparr>pending_acks := pending_acks s1 |` (- stale_acks)\<rparr>)
         else s)"

fun is_RequestError :: "exc \<Rightarrow> bool" where
  "is_RequestError (RequestError _) = True"
| "is_RequestError _ = False"

text \<open>The loop over \<^verbatim>\<open>topics_to_subscribe\<close>. It yields the exception that leaves the
  loop, if any, and the topics added to \<^verbatim>\<open>successful_subs\<close>.\<close>

fun resubscribe ::
  "(string \<Rightarrow> sub_env) \<Rightarrow> string list \<Rightarrow> string list \<Rightarrow> mqtt_client
     \<Rightarrow> exc option \<times> string list \<times> mqtt_client" where
  "resubscribe env [] successful_subs s = (None, successful_subs, s)"
| "resubscribe env (topic # rest) successful_subs s =
     (case subscribe_with_ack topic (env topic) s of
        (Inr (res, msg_id), s1) \<Rightarrow>
          if res = 0 then resubscribe env rest (successful_subs @ [topic]) s1
          else resubscribe env rest successful_subs
                 (log ERROR ''Failed to re-subscribe to %s: %s'' s1)
      | (Inl e, s1) \<Rightarrow>
          (let e' = (if e = CancelledError \<and> outer_expired (env topic) then TimeoutError else e)
           in if is_RequestError e' then
                resubscribe env rest successful_subs
                  (log ERROR ''Error re-subscribing to %s: %s'' s1)
              else if is_Exception e' then
                resubscribe env rest successful_subs
                  (log ERROR ''Unexpected error re-subscribing to %s: %s'' s1)
              else (Some e', successful_subs, s1)))"

text \<open>What the environment does during one iteration of the retry loop, await by await.
  \<open>hash_rank\<close> fixes the iteration order of \<^verbatim>\<open>set(self.topics)\<close>, which Python leaves
  unspecified: any order of the deduplicated topics is the order of some ranking.\<close>

record attempt_env =
  sleep_callbacks :: "callback list"
  sleep_raises :: "exc option"
  request_callbacks :: "callback list"
  response :: "exc + (string \<rightharpoonup> string)"
  connect_callbacks :: "callback list"
  connect_raises :: "exc option"
  wait_callbacks :: "callback list"
  wait_raises :: exc
  hash_rank :: "string \<Rightarrow> nat"
  resub :: "string \<Rightarrow> sub_env"

text \<open>\<^verbatim>\<open>connect_evt.wait()\<close>: the callbacks run, and the waiter is woken iff the event
  was set at the start or after one of them.\<close>

fun wait_connect_evt :: "callback list \<Rightarrow> mqtt_client \<Rightarrow> bool \<times> mqtt_client" where
  "wait_connect_evt [] s = (connect_evt s, s)"
| "wait_connect_evt (c # cs) s =
     (case wait_connect_evt cs (deliver c s) of (woken, s') \<Rightarrow> (connect_evt s \<or> woken, s'))"

text \<open>The part of an iteration after a connection was observed: the clean-up of the
  stale entries and the resubscription.\<close>

definition restore_topics :: "attempt_env \<Rightarrow> mqtt_client \<Rightarrow> exc option \<times> mqtt_client" where
  "restore_topics a s =
     (let s1 = clear_stale_acks s;
          topics_to_subscribe = sort_key (hash_rank a) (remdups (topics s1))
      in case resubscribe (resub a) topics_to_subscribe [] s1 of
           (Some e, successful_subs, s2) \<Rightarrow> (Some e, s2)
         | (None, successful_subs, s2) \<Rightarrow>
             if set successful_subs \<noteq> set topics_to_subscribe then
               (None, log WARNING ''Failed to re-subscribe to %d topics: %s'' s2)
             else (None, log INFO ''Successfully re-subscribed to all %d topics'' s2))"

text \<open>The body of the inner \<^verbatim>\<open>try\<close> from the wait for the connection on:
  \<open>Inr True\<close> is the \<^verbatim>\<open>break\<close>, \<open>Inr False\<close> the \<^verbatim>\<open>continue\<close> after the event
  was found cleared again.\<close>

definition await_connection :: "attempt_env \<Rightarrow> mqtt_client \<Rightarrow> (exc + bool) \<times> mqtt_client" where
  "await_connection a s =
     (case wait_connect_evt (wait_callbacks a) s of
        (woken, s4) \<Rightarrow>
          if \<not> woken then (Inl (wait_raises a), s4)
          else if \<not> connect_evt s4 then
            (Inr False, log INFO ''Timeout while waiting for MQTT connection'' s4)
          else
            (case restore_topics a s4 of
               (Some e, s5) \<Rightarrow> (Inl e, s5)
             | (None, s5) \<Rightarrow> (Inr True, s5)))"

text \<open>The body of the inner \<^verbatim>\<open>try\<close>.\<close>

definition try_connect :: "attempt_env \<Rightarrow> mqtt_client \<Rightarrow> (exc + bool) \<times> mqtt_client" where
  "try_connect a s =
     (let s1 = deliver_all (request_callbacks a) (emit Request s)
      in case get_mqtt_info (response a) of
           Inl e \<Rightarrow> (Inl e, s1)
         | Inr (h, path) \<Rightarrow>
             (let s2 = emit (Connect h)
                         (log INFO ''Attempting to reconnnect...'' (s1\<lparr>host := Some h\<rparr>));
                  s3 = deliver_all (connect_callbacks a) s2
              in case connect_raises a of
                   Some e \<Rightarrow> (Inl e, s3)
                 | None \<Rightarrow> await_connection a s3))"

datatype flow = Break | Continue | Raise exc

text \<open>One iteration from \<^verbatim>\<open>connect_attempts += 1\<close> on, with the three
  \<^verbatim>\<open>except\<close> clauses; the second component is the new \<^verbatim>\<open>last_err\<close>.\<close>

definition attempt :: "attempt_env \<Rightarrow> exc \<Rightarrow> mqtt_client \<Rightarrow> flow \<times> exc \<times> mqtt_client" where
  "attempt a last_err s =
     (case try_connect a s of
        (Inr True, s1) \<Rightarrow> (Break, last_err, s1)
      | (Inr False, s1) \<Rightarrow> (Continue, last_err, s1)
      | (Inl e, s1) \<Rightarrow>
          if e = CancelledError then (Raise e, last_err, s1)
          else if e = TimeoutError then
            (if last_err \<noteq> TimeoutError
             then (Continue, TimeoutError, log WARNING ''MQTT Connection Timeout'' s1)
             else (Continue, last_err, s1))
          else
            (if last_err \<noteq> e
             then (Continue, e, log WARNING ''MQTT Connection Error: %s'' s1)
             else (Continue, last_err, s1)))"

definition max_attempts :: nat where
  "max_attempts = 20"

text \<open>The new value of \<^verbatim>\<open>t\<close> before a sleep, in seconds.\<close>

definition throttle :: "nat \<Rightarrow> nat \<Rightarrow> nat" where
  "throttle connect_attempts t =
     (if connect_attempts > 6 then 60 else if connect_attempts > 3 then 10 else t)"

text \<open>The \<^verbatim>\<open>while\<close> loop. \<open>env k\<close> is the environment of the iteration entered with
  \<^verbatim>\<open>connect_attempts\<close> = \<open>k\<close>. The result is the exception that left the loop, if any,
  the final \<^verbatim>\<open>connect_attempts\<close> and the state.\<close>

function reconnect_loop ::
  "(nat \<Rightarrow> attempt_env) \<Rightarrow> bool \<Rightarrow> nat \<Rightarrow> nat \<Rightarrow> exc \<Rightarrow> mqtt_client
     \<Rightarrow> exc option \<times> nat \<times> mqtt_client" where
  "reconnect_loop env first connect_attempts t last_err s =
     (if connect_attempts < max_attempts then
        (let a = env connect_attempts;
             t1 = (if first then t else throttle connect_attempts t);
             s1 = (if first then s
                   else deliver_all (sleep_callbacks a)
                          (emit (Sleep t1) (log DEBUG ''MQTT throttle for %s seconds'' s)))
         in if \<not> first \<and> sleep_raises a \<noteq> None then (sleep_raises a, connect_attempts, s1)
            else
              (case attempt a last_err s1 of
                 (Break, last_err', s2) \<Rightarrow> (None, Suc connect_attempts, s2)
               | (Continue, last_err', s2) \<Rightarrow>
                   reconnect_loop env False (Suc connect_attempts) t1 last_err' s2
               | (Raise e, last_err', s2) \<Rightarrow> (Some e, Suc connect_attempts, s2)))
      else (None, connect_attempts, s))"
  by pat_completeness auto
termination
  by (relation "measure (\<lambda>(env, first, connect_attempts, t, last_err, s).
                            max_attempts - connect_attempts)") auto

declare reconnect_loop.simps [simp del]

text \<open>The \<^verbatim>\<open>finally\<close> clause.\<close>

definition finally_clear :: "mqtt_client \<Rightarrow> mqtt_client" where
  "finally_clear s = s\<lparr>reconnect_evt := False, disconnect_evt := None, connect_task := None\<rparr>"

text \<open>\<^verbatim>\<open>_do_reconnect(first)\<close>: the exception raised to the caller, if any, and the
  state left behind.\<close>

definition do_reconnect ::
  "bool \<Rightarrow> (nat \<Rightarrow> attempt_env) \<Rightarrow> mqtt_client \<Rightarrow> exc option \<times> mqtt_client" where
  "do_reconnect first env s =
     (if reconnect_evt s then
        (None, log INFO ''Already attempting to reconnect, second attemp cancelled.'' s)
      else
        (let s1 = (log INFO ''Attempting MQTT Connect/Reconnect'' s)\<lparr>reconnect_evt := True\<rparr>
         in case reconnect_loop env first 0 2 (PyException []) s1 of
              (Some e, connect_attempts, s2) \<Rightarrow> (Some e, finally_clear s2)
            | (None, connect_attempts, s2) \<Rightarrow>
                (None, finally_clear
                         (if max_attempts \<le> connect_attempts then
                            log ERROR ''Max reconnection attempts (%d) reached, giving up'' s2
                          else s2))))"

subsection \<open>Example environments\<close>

text \<open>A subscription that the transport refuses, one that is acknowledged under message
  id \<open>mid\<close>, and one that is sent under \<open>mid\<close> and never acknowledged.\<close>

definition sub_refused :: sub_env where
  "sub_refused =
     \<lparr> subscribe_returns = Inr (4, None), ack_callbacks = [], ack_wait_raises = TimeoutError,
       outer_expired = False \<rparr>"

definition sub_acked :: "nat \<Rightarrow> sub_env" where
  "sub_acked mid =
     \<lparr> subscribe_returns = Inr (0, Some mid), ack_callbacks = [OnSubscribe mid],
       ack_wait_raises = TimeoutError, outer_expired = False \<rparr>"

definition sub_silent :: "nat \<Rightarrow> sub_env" where
  "sub_silent mid =
     \<lparr> subscribe_returns = Inr (0, Some mid), ack_callbacks = [],
       ack_wait_raises = CancelledError, outer_expired = True \<rparr>"

text \<open>An iteration in which the request for the connection info fails, and one in which
  the broker accepts the connection.\<close>

definition env_offline :: attempt_env where
  "env_offline =
     \<lparr> sleep_callbacks = [], sleep_raises = None, request_callbacks = [],
       response = Inl (RequestError ''Error requesting data''),
       connect_callbacks = [], connect_raises = None, wait_callbacks = [],
       wait_raises = TimeoutError, hash_rank = length, resub = (\<lambda>_. sub_refused) \<rparr>"

definition env_online :: attempt_env where
  "env_online =
     \<lparr> sleep_callbacks = [], sleep_raises = None, request_callbacks = [],
       response = Inr [''wss_url'' \<mapsto> ''wss://broker.example.com/mqtt?token=1''],
       connect_callbacks = [], connect_raises = None, wait_callbacks = [OnConnect 0],
       wait_raises = TimeoutError, hash_rank = length, resub = (\<lambda>_. sub_acked 1) \<rparr>"

text \<open>A client with two update handlers registered.\<close>

definition client_two_handlers :: mqtt_client where
  "client_two_handlers =
     snd (add_event_handler ''update'' 9 (snd (add_event_handler ''update'' 7 init_client)))"

text \<open>A connecting iteration in which the subscription to one topic is acknowledged and
  the other one is not, and a client that holds two topics and a stale pending entry.\<close>

definition env_mixed :: attempt_env where
  "env_mixed =
     env_online\<lparr>resub := (\<lambda>topic. if topic = ''prd/a'' then sub_acked 1 else sub_silent 2)\<rparr>"

definition client_subscribed :: mqtt_client where
  "client_subscribed =
     init_client\<lparr>topics := [''prd/a'', ''prd/b''],
                 pending_acks := [Some 5 \<mapsto> TopicOnly ''prd/old'']\<rparr>"

subsection \<open>Notions used in the statements\<close>

text \<open>The topic named by a pending entry.\<close>

fun topic_of :: "pending_info \<Rightarrow> string" where
  "topic_of (TopicOnly topic) = topic"
| "topic_of (TopicEvt topic ack_evt) = topic"

text \<open>The events that only the retry loop itself produces: its sleeps, its requests for
  the connection info and its calls of the transport's connect.\<close>

definition loop_event :: "event \<Rightarrow> bool" where
  "loop_event e = (is_Sleep e \<or> is_Request e \<or> is_Connect e)"

text \<open>The connect call of an iteration: made iff the connection info was obtained.\<close>

definition connects :: "attempt_env \<Rightarrow> event list" where
  "connects a = (case get_mqtt_info (response a) of Inl e \<Rightarrow> [] | Inr (h, path) \<Rightarrow> [Connect h])"

text \<open>The delay of the sleep in an iteration that is entered with \<open>k\<close> attempts made,
  as the source computes it: the initial value 2.0 of \<^verbatim>\<open>t\<close>, replaced by 10.0 once
  \<^verbatim>\<open>connect_attempts > 3\<close> and by 60.0 once \<^verbatim>\<open>connect_attempts > 6\<close>.\<close>

definition loop_delay :: "nat \<Rightarrow> nat" where
  "loop_delay k = throttle k 2"

text \<open>What iteration \<open>k\<close> of a cycle contributes to the loop events; \<open>nosleep\<close> says that
  the iteration is entered with \<^verbatim>\<open>first\<close> set.\<close>

definition iteration_events :: "(nat \<Rightarrow> attempt_env) \<Rightarrow> bool \<Rightarrow> nat \<Rightarrow> event list" where
  "iteration_events env nosleep k =
     (if nosleep then [] else [Sleep (loop_delay k)]) @ Request # connects (env k)"

text \<open>The sleeps and requests of a cycle that makes \<open>n\<close> attempts, for a delay function
  \<open>delay\<close>: no sleep before the first attempt, and before each later attempt the delay for
  the number of attempts made so far.\<close>

definition schedule :: "(nat \<Rightarrow> nat) \<Rightarrow> nat \<Rightarrow> event list" where
  "schedule delay n =
     concat (map (\<lambda>k. (if k = 0 then [] else [Sleep (delay k)]) @ [Request]) [0..<n])"

text \<open>The schedule with the delays of the source.\<close>

definition timeline :: "nat \<Rightarrow> event list" where
  "timeline n = schedule loop_delay n"

text \<open>The delays in the words of the claim: the wait that follows attempt \<open>k\<close> is about 2
  seconds for the early attempts, about 10 seconds after attempt 3 and about 60 seconds
  after attempt 6.\<close>

definition claimed_delay :: "nat \<Rightarrow> nat" where
  "claimed_delay k = (if k < 3 then 2 else if k < 6 then 10 else 60)"

text \<open>The schedule with the delays of the claim.\<close>

definition claimed_timeline :: "nat \<Rightarrow> event list" where
  "claimed_timeline n = schedule claimed_delay n"

definition sleep_or_request :: "event \<Rightarrow> bool" where
  "sleep_or_request e = (is_Sleep e \<or> is_Request e)"

text \<open>Callbacks that neither report a connection nor trigger a reconnect: a refused
  connect, a disconnect with the transport not connected, an acknowledgment.\<close>

fun quiet :: "callback \<Rightarrow> bool" where
  "quiet (OnConnect reason_code) = (reason_code \<noteq> 0)"
| "quiet (OnDisconnect is_connected) = (\<not> is_connected)"
| "quiet (OnSubscribe mid) = True"

text \<open>An iteration during which no connection is reported and nothing is cancelled.\<close>

definition no_connection :: "attempt_env \<Rightarrow> bool" where
  "no_connection a =
     (list_all quiet (sleep_callbacks a) \<and> list_all quiet (request_callbacks a)
      \<and> list_all quiet (connect_callbacks a) \<and> list_all quiet (wait_callbacks a)
      \<and> sleep_raises a = None \<and> connect_raises a \<noteq> Some CancelledError
      \<and> wait_raises a \<noteq> CancelledError)"

text \<open>Between two states no reconnect task was created and the timer was left alone.\<close>

definition nothing_scheduled :: "mqtt_client \<Rightarrow> mqtt_client \<Rightarrow> bool" where
  "nothing_scheduled s s' =
     (filter is_CreateTask (trace s') = filter is_CreateTask (trace s)
      \<and> reconnect_timer s' = reconnect_timer s)"

text \<open>A subscription call that can end with a cancellation from outside: the
  \<open>CancelledError\<close> is not the one of the loop's own timeout.\<close>

definition cancels :: "sub_env \<Rightarrow> bool" where
  "cancels e =
     (\<not> outer_expired e
      \<and> (subscribe_returns e = Inl CancelledError \<or> ack_wait_raises e = CancelledError))"

text \<open>The message ids under which the subscriptions to the topics \<open>ts\<close> are sent.\<close>

definition issued :: "(string \<Rightarrow> sub_env) \<Rightarrow> string list \<Rightarrow> nat option set" where
  "issued env ts = {mid. \<exists>topic\<in>set ts. subscribe_returns (env topic) = Inr (0, mid)}"



text \<open>A subscription call whose acknowledgment arrives while it waits.\<close>

definition acked :: "sub_env \<Rightarrow> bool" where
  "acked e = (\<exists>m. subscribe_returns e = Inr (0, Some m) \<and> OnSubscribe m \<in> set (ack_callbacks e))"

text \<open>Every event held by a pending entry has been created already.\<close>

definition events_allocated :: "mqtt_client \<Rightarrow> bool" where
  "events_allocated s =
     (\<forall>k topic e. pending_acks s k = Some (TopicEvt topic e) \<longrightarrow> e < next_evt s)"

text \<open>The state in which the waiter for the connection resumes, in an iteration that is
  entered in state \<open>s\<close> with \<^verbatim>\<open>connect_attempts\<close> = \<open>n\<close> and obtains the host \<open>h\<close>: after
  the sleep (unless \<^verbatim>\<open>first\<close>), the request, the connect call and the callbacks that ran
  during each of them and during the wait.\<close>

definition observed_at ::
  "attempt_env \<Rightarrow> bool \<Rightarrow> nat \<Rightarrow> nat \<Rightarrow> string \<Rightarrow> mqtt_client \<Rightarrow> mqtt_client" where
  "observed_at a first n t h s =
     deliver_all (wait_callbacks a)
       (deliver_all (connect_callbacks a)
          (emit (Connect h)
             (log INFO ''Attempting to reconnnect...''
                ((deliver_all (request_callbacks a)
                    (emit Request
                       (if first then s
                        else deliver_all (sleep_callbacks a)
                               (emit (Sleep (throttle n t))
                                  (log DEBUG ''MQTT throttle for %s seconds'' s)))))
                 \<lparr>host := Some h\<rparr>))))"

section \<open>Properties\<close>

subsection \<open>Message dispatch\<close>

lemma call_handlers_prefix:
  "prefix (fst (call_handlers call hs device_id (Some d))) (map (\<lambda>h. (h, device_id, d)) hs)"
proof (induction hs)
  case Nil
  then show ?case by simp
next
  case (Cons h hs)
  then show ?case
    by (cases "call h"; cases "call_handlers call hs device_id (Some d)") simp_all
qed

lemma call_handlers_awaitable:
  "\<forall>h\<in>set hs. call h = Awaitable \<Longrightarrow>
     call_handlers call hs device_id (Some d) = (map (\<lambda>h. (h, device_id, d)) hs, None)"
  by (induction hs) simp_all

lemma split_on_nonempty: "split_on sep xs \<noteq> []"
  by (induction xs) (auto split: list.splits)

lemma length_split_on_Cons:
  "length (split_on sep (c # cs)) =
     (if c = sep then Suc (length (split_on sep cs)) else length (split_on sep cs))"
  using split_on_nonempty[of sep cs] by (auto split: list.splits)

lemma split_on_prefix:
  assumes "prefix ''prd/app_subscriptions/'' topic"
  shows "2 < length (split_on CHR ''/'' topic)"
proof -
  from assms obtain zs where "topic = ''prd/app_subscriptions/'' @ zs"
    by (auto simp: prefix_def)
  moreover have "0 < length (split_on CHR ''/'' zs)"
    using split_on_nonempty[of "CHR ''/''" zs] by simp
  ultimately show ?thesis
    by (simp add: length_split_on_Cons del: split_on.simps)
qed

lemma on_message_decoded:
  assumes "handlers s ''update'' = Some hs" and "decode payload = Some msg"
    and "json_loads msg = Some d"
  shows "\<exists>device_id.
           prefix (fst (snd (on_message decode json_loads call s topic payload)))
                  (map (\<lambda>h. (h, device_id, d)) hs)
         \<and> ((\<forall>h\<in>set hs. call h = Awaitable) \<longrightarrow>
              snd (on_message decode json_loads call s topic payload)
                = (map (\<lambda>h. (h, device_id, d)) hs, None))"
proof -
  define dev where "dev = (if prefix ''prd/app_subscriptions/'' topic
                           then Some (split_on CHR ''/'' topic ! 2) else None)"
  have om: "snd (on_message decode json_loads call s topic payload)
              = call_handlers call hs dev (Some d)"
  proof (cases "prefix ''prd/app_subscriptions/'' topic")
    case True
    then have "2 < length (split_on CHR ''/'' topic)" by (rule split_on_prefix)
    with True assms show ?thesis
      by (cases "call_handlers call hs (Some (split_on CHR ''/'' topic ! 2)) (Some d)")
         (simp add: on_message_def dev_def Let_def del: split_on.simps)
  next
    case False
    with assms show ?thesis
      by (cases "call_handlers call hs None (Some d)")
         (simp add: on_message_def dev_def Let_def del: split_on.simps)
  qed
  have "prefix (fst (snd (on_message decode json_loads call s topic payload)))
               (map (\<lambda>h. (h, dev, d)) hs)"
    unfolding om by (rule call_handlers_prefix)
  moreover have "(\<forall>h\<in>set hs. call h = Awaitable) \<longrightarrow>
              snd (on_message decode json_loads call s topic payload)
                = (map (\<lambda>h. (h, dev, d)) hs, None)"
    unfolding om by (simp add: call_handlers_awaitable)
  ultimately show ?thesis by blast
qed

text \<open>
  Claim C3. A payload that is not JSON should be logged and dropped without any error.
  The code logs it and goes on to the handler loop, where the first call reads the local
  \<^verbatim>\<open>data\<close> that was never bound: with one update handler registered, the callback
  raises \<^verbatim>\<open>UnboundLocalError\<close> after the log line, before any handler is called.
\<close>

theorem on_message_invalid_json_raises:
  "on_message Some (\<lambda>msg. if msg = ''{not json'' then None else Some msg) (\<lambda>h. Awaitable)
     (snd (add_event_handler ''update'' 7 init_client))
     ''prd/app_subscriptions/device-42/state'' ''{not json''
   = ([Log DEBUG ''Message received on %s: %s'',
       Log INFO ''Received invalid JSON message: %s''],
      [], Some (UnboundLocalError ''data''))"
  by (simp add: on_message_def add_event_handler_def init_client_def)

subsection \<open>Connection info\<close>

text \<open>
  Claim C4. A failed request should reach the caller as a distinguishable typed error.
  The code catches the request's exception, builds the exception it means to raise
  without raising it, and fails on the unbound \<^verbatim>\<open>wss_data\<close>: whatever the request
  raised, the caller sees \<^verbatim>\<open>UnboundLocalError\<close>.
\<close>

theorem get_mqtt_info_request_failure:
  "get_mqtt_info (Inl (RequestError ''Error requesting data'')) = Inl (UnboundLocalError ''wss_data'')
   \<and> get_mqtt_info (Inl CancelledError) = Inl (UnboundLocalError ''wss_data'')"
  by (simp add: get_mqtt_info_def)

lemma get_mqtt_info_result:
  "get_mqtt_info r = Inr (h, path) \<Longrightarrow>
     \<exists>d url. r = Inr d \<and> d ''wss_url'' = Some url \<and> match_wss url = Some (h, path)"
  by (auto simp: get_mqtt_info_def split: sum.splits option.splits)

subsection \<open>Handler registration\<close>

lemma add_event_handler_dom:
  "(fst (add_event_handler kind target s) = Some False \<longleftrightarrow> kind \<notin> dom (handlers s))
   \<and> (kind \<notin> dom (handlers s) \<longrightarrow> snd (add_event_handler kind target s) = s)
   \<and> add_event_handler kind target (snd (add_event_handler kind target s))
        = (if kind \<in> dom (handlers s) then Some True else Some False,
           snd (add_event_handler kind target s))
   \<and> (\<forall>hs. handlers s kind = Some hs \<longrightarrow>
         handlers (snd (add_event_handler kind target s)) kind
           = Some (if target \<in> set hs then hs else hs @ [target]))"
  by (cases "handlers s kind") (auto simp: add_event_handler_def domIff)

lemma dom_handlers_init:
  "dom (handlers init_client) = {''connect'', ''disconnect'', ''update''}"
  by (simp add: init_client_def insert_commute)

text \<open>
  Claim C9, as stated: registrations are accepted for the kinds \<open>connected\<close>,
  \<open>disconnected\<close> and \<open>update\<close>. The registry of the code has the keys \<open>connect\<close>,
  \<open>disconnect\<close> and \<open>update\<close>: a registration for \<open>connected\<close> or for \<open>disconnected\<close>
  returns \<^verbatim>\<open>False\<close> and changes nothing.
\<close>

theorem add_event_handler_connected_rejected:
  "add_event_handler ''connected'' 7 init_client = (Some False, init_client)
   \<and> add_event_handler ''disconnected'' 7 init_client = (Some False, init_client)"
  by (simp add: add_event_handler_def init_client_def)

lemma dom_handlers_add_event_handler:
  "dom (handlers (snd (add_event_handler kind target s))) = dom (handlers s)"
  by (cases "handlers s kind") (auto simp: add_event_handler_def)

text \<open>
  Claim C9, amended. With the registry that the constructor creates, a registration is
  accepted exactly for the kinds \<open>connect\<close>, \<open>disconnect\<close> and \<open>update\<close>, and a rejected
  one changes nothing. Targets are told apart by their identity: registering a target a
  second time for the same kind leaves the state unchanged. An accepted new target is
  appended after the targets registered before, and the handlers that a decoded message
  reaches are called in that order: the calls made are an initial part of the collection,
  in its order, and the whole of it when every target is a coroutine function.
\<close>

theorem add_event_handler_registry:
  assumes "dom (handlers s) = {''connect'', ''disconnect'', ''update''}"
  shows "(fst (add_event_handler kind target s) = Some False
            \<longleftrightarrow> kind \<notin> {''connect'', ''disconnect'', ''update''})
       \<and> (kind \<notin> {''connect'', ''disconnect'', ''update''}
            \<longrightarrow> snd (add_event_handler kind target s) = s)
       \<and> add_event_handler kind target (snd (add_event_handler kind target s))
            = (if kind \<in> {''connect'', ''disconnect'', ''update''} then Some True else Some False,
               snd (add_event_handler kind target s))
       \<and> (\<forall>hs. handlers s kind = Some hs \<longrightarrow>
             handlers (snd (add_event_handler kind target s)) kind
               = Some (if target \<in> set hs then hs else hs @ [target]))
       \<and> (\<forall>hs msg d. handlers s ''update'' = Some hs \<and> decode payload = Some msg
                        \<and> json_loads msg = Some d \<longrightarrow>
             (\<exists>device_id.
                prefix (fst (snd (on_message decode json_loads call s topic payload)))
                       (map (\<lambda>h. (h, device_id, d)) hs)
              \<and> ((\<forall>h\<in>set hs. call h = Awaitable) \<longrightarrow>
                   snd (on_message decode json_loads call s topic payload)
                     = (map (\<lambda>h. (h, device_id, d)) hs, None))))"
proof -
  note d = add_event_handler_dom [of kind target s, unfolded assms]
  have e: "\<forall>hs msg d. handlers s ''update'' = Some hs \<and> decode payload = Some msg
                        \<and> json_loads msg = Some d \<longrightarrow>
             (\<exists>device_id.
                prefix (fst (snd (on_message decode json_loads call s topic payload)))
                       (map (\<lambda>h. (h, device_id, d)) hs)
              \<and> ((\<forall>h\<in>set hs. call h = Awaitable) \<longrightarrow>
                   snd (on_message decode json_loads call s topic payload)
                     = (map (\<lambda>h. (h, device_id, d)) hs, None)))"
  proof (intro allI impI)
    fix hs msg d
    assume "handlers s ''update'' = Some hs \<and> decode payload = Some msg
              \<and> json_loads msg = Some d"
    then have "handlers s ''update'' = Some hs" "decode payload = Some msg"
      "json_loads msg = Some d" by simp_all
    then show "\<exists>device_id.
                prefix (fst (snd (on_message decode json_loads call s topic payload)))
                       (map (\<lambda>h. (h, device_id, d)) hs)
              \<and> ((\<forall>h\<in>set hs. call h = Awaitable) \<longrightarrow>
                   snd (on_message decode json_loads call s topic payload)
                     = (map (\<lambda>h. (h, device_id, d)) hs, None))"
      by (rule on_message_decoded)
  qed
  from d e show ?thesis
    by (elim conjE, intro conjI) assumption+
qed

theorem add_event_handler_registry_witness:
  "dom (handlers client_two_handlers) = {''connect'', ''disconnect'', ''update''}
   \<and> handlers client_two_handlers ''update'' = Some [7, 9]
   \<and> add_event_handler ''update'' 7 (snd (add_event_handler ''update'' 7 client_two_handlers))
       = (Some True, snd (add_event_handler ''update'' 7 client_two_handlers))
   \<and> handlers (snd (add_event_handler ''update'' 7 client_two_handlers)) ''update''
       = Some [7, 9]
   \<and> (\<exists>device_id.
         snd (on_message Some (\<lambda>msg. Some (1::nat)) (\<lambda>h. Awaitable) client_two_handlers
                ''some/other/topic'' ''1'')
           = ([(7, device_id, 1), (9, device_id, 1)], None))"
proof -
  have h: "dom (handlers client_two_handlers) = {''connect'', ''disconnect'', ''update''}"
    by (simp only: client_two_handlers_def dom_handlers_add_event_handler dom_handlers_init)
  have u: "handlers client_two_handlers ''update'' = Some [7, 9]"
    by (simp add: client_two_handlers_def add_event_handler_def init_client_def)
  note t = add_event_handler_registry
             [where s = client_two_handlers and kind = "''update''" and target = 7
                and decode = Some and json_loads = "\<lambda>msg. Some (1::nat)"
                and call = "\<lambda>h. Awaitable" and topic = "''some/other/topic''"
                and payload = "''1''", OF h]
  from t have c: "add_event_handler ''update'' 7
                    (snd (add_event_handler ''update'' 7 client_two_handlers))
       = (Some True, snd (add_event_handler ''update'' 7 client_two_handlers))"
    by simp
  from t u have d: "handlers (snd (add_event_handler ''update'' 7 client_two_handlers)) ''update''
       = Some [7, 9]"
    by simp
  from t u have "\<exists>device_id.
         prefix (fst (snd (on_message Some (\<lambda>msg. Some (1::nat)) (\<lambda>h. Awaitable)
                   client_two_handlers ''some/other/topic'' ''1'')))
                (map (\<lambda>h. (h, device_id, 1)) [7, 9])
         \<and> ((\<forall>h\<in>set [7, 9::nat]. (\<lambda>h. Awaitable) h = Awaitable) \<longrightarrow>
              snd (on_message Some (\<lambda>msg. Some (1::nat)) (\<lambda>h. Awaitable)
                   client_two_handlers ''some/other/topic'' ''1'')
                = (map (\<lambda>h. (h, device_id, 1)) [7, 9], None))"
    by blast
  then have e: "\<exists>device_id.
         snd (on_message Some (\<lambda>msg. Some (1::nat)) (\<lambda>h. Awaitable) client_two_handlers
                ''some/other/topic'' ''1'')
           = ([(7, device_id, 1), (9, device_id, 1)], None)"
    by auto
  from h u c d e show ?thesis by (intro conjI)
qed

subsection \<open>The finally clause of the reconnect cycle\<close>

text \<open>
  Claim C10. A reconnect cycle is a call that passes the guard. However it ends, by a
  connection, by exhausting the attempts or by an exception or cancellation that leaves
  the loop, the state it returns with has the in-progress flag cleared, the pending
  disconnect signal absent and the stored task handle cleared.
\<close>

theorem do_reconnect_finally:
  assumes "\<not> reconnect_evt s"
  shows "\<not> reconnect_evt (snd (do_reconnect first env s))
       \<and> disconnect_evt (snd (do_reconnect first env s)) = None
       \<and> connect_task (snd (do_reconnect first env s)) = None"
  using assms
  by (simp add: do_reconnect_def finally_clear_def Let_def split: prod.splits option.splits)

theorem do_reconnect_finally_witness:
  "\<not> reconnect_evt (init_client\<lparr>disconnect_evt := Some False, connect_task := Some 0\<rparr>)
   \<and> \<not> reconnect_evt (snd (do_reconnect True (\<lambda>_. env_offline)
          (init_client\<lparr>disconnect_evt := Some False, connect_task := Some 0\<rparr>)))
   \<and> disconnect_evt (snd (do_reconnect True (\<lambda>_. env_offline)
          (init_client\<lparr>disconnect_evt := Some False, connect_task := Some 0\<rparr>))) = None
   \<and> connect_task (snd (do_reconnect True (\<lambda>_. env_offline)
          (init_client\<lparr>disconnect_evt := Some False, connect_task := Some 0\<rparr>))) = None"
proof -
  have h: "\<not> reconnect_evt (init_client\<lparr>disconnect_evt := Some False, connect_task := Some 0\<rparr>)"
    by (simp add: init_client_def)
  show ?thesis
    using do_reconnect_finally [OF h, of True "\<lambda>_. env_offline"] h by simp
qed

subsection \<open>State after the elementary steps\<close>

lemma emit_fields [simp]:
  "trace (emit e s) = trace s @ [e]"
  "pending_acks (emit e s) = pending_acks s"
  "topics (emit e s) = topics s"
  "connect_evt (emit e s) = connect_evt s"
  "connect_task (emit e s) = connect_task s"
  "disconnect_evt (emit e s) = disconnect_evt s"
  "reconnect_evt (emit e s) = reconnect_evt s"
  "host (emit e s) = host s"
  "reconnect_timer (emit e s) = reconnect_timer s"
  "handlers (emit e s) = handlers s"
  "ack_flags (emit e s) = ack_flags s"
  "next_evt (emit e s) = next_evt s"
  "next_task (emit e s) = next_task s"
  by (simp_all add: emit_def)

lemma log_emit [simp]: "log l m s = emit (Log l m) s"
  by (simp add: log_def)

lemma add_topic_fields [simp]:
  "trace (add_topic topic s) = trace s"
  "pending_acks (add_topic topic s) = pending_acks s"
  "connect_evt (add_topic topic s) = connect_evt s"
  "connect_task (add_topic topic s) = connect_task s"
  "disconnect_evt (add_topic topic s) = disconnect_evt s"
  "reconnect_timer (add_topic topic s) = reconnect_timer s"
  "ack_flags (add_topic topic s) = ack_flags s"
  "next_evt (add_topic topic s) = next_evt s"
  by (simp_all add: add_topic_def)

lemma set_topics_add_topic [simp]: "set (topics (add_topic topic s)) = insert topic (set (topics s))"
  by (auto simp: add_topic_def)

lemma distinct_topics_add_topic [simp]:
  "distinct (topics (add_topic topic s)) = distinct (topics s)"
  by (simp add: add_topic_def)

lemma topics_add_topic_member: "topic \<in> set (topics s) \<Longrightarrow> topics (add_topic topic s) = topics s"
  by (simp add: add_topic_def)

lemma topics_on_subscribe:
  "topics (on_subscribe mid s) =
     (case pending_acks s (Some mid) of
        None \<Rightarrow> topics s
      | Some p \<Rightarrow> topics (add_topic (topic_of p) s))"
  by (simp add: on_subscribe_def ack_evt_set_def add_topic_def Let_def
           split: option.splits pending_info.splits)

lemma pending_acks_on_subscribe [simp]:
  "pending_acks (on_subscribe mid s) = (pending_acks s)(Some mid := None)"
  by (auto simp: on_subscribe_def ack_evt_set_def Let_def
           split: option.splits pending_info.splits)

lemma topics_subscribe [simp]: "topics (subscribe topic r s) = topics s"
  by (simp add: subscribe_def Let_def)

lemma pending_acks_subscribe [simp]:
  "pending_acks (subscribe topic r s) = (pending_acks s)(snd r \<mapsto> TopicOnly topic)"
  by (simp add: subscribe_def Let_def)

lemma count_list_distinct:
  "distinct xs \<Longrightarrow> count_list xs x = (if x \<in> set xs then 1 else 0)"
  by (induction xs) auto

subsection \<open>The topic set\<close>

lemma on_subscribe_adds_once:
  assumes "distinct (topics s)" and "pending_acks s (Some mid) = Some p"
  shows "count_list (topics (on_subscribe mid s)) (topic_of p) = 1"
proof -
  have "distinct (topics (add_topic (topic_of p) s))"
    using assms(1) by simp
  moreover have "topic_of p \<in> set (topics (add_topic (topic_of p) s))"
    by simp
  ultimately have "count_list (topics (add_topic (topic_of p) s)) (topic_of p) = 1"
    by (simp only: count_list_distinct if_True)
  then show ?thesis
    using assms(2) by (simp add: topics_on_subscribe)
qed

text \<open>
  Claim C8. In a state whose topic list has no duplicate, an acknowledgment leaves it
  without duplicates; the topic of the acknowledged entry is then in the list exactly
  once, and the list is unchanged if the topic was there already. So two subscriptions to
  one topic, acknowledged in either order or one after the other, leave exactly one entry
  for it.
\<close>

theorem topic_set_idempotent:
  assumes "distinct (topics s)"
  shows "distinct (topics (on_subscribe mid s))
       \<and> (\<forall>p. pending_acks s (Some mid) = Some p \<longrightarrow>
             count_list (topics (on_subscribe mid s)) (topic_of p) = 1
             \<and> (topic_of p \<in> set (topics s) \<longrightarrow> topics (on_subscribe mid s) = topics s))
       \<and> (m1 \<noteq> m2 \<longrightarrow>
             count_list (topics (on_subscribe m2 (on_subscribe m1
               (subscribe topic (r2, Some m2) (subscribe topic (r1, Some m1) s))))) topic = 1
           \<and> count_list (topics (on_subscribe m1 (on_subscribe m2
               (subscribe topic (r2, Some m2) (subscribe topic (r1, Some m1) s))))) topic = 1)
       \<and> count_list (topics (on_subscribe m2 (subscribe topic (r2, Some m2)
               (on_subscribe m1 (subscribe topic (r1, Some m1) s))))) topic = 1"
proof -
  have d: "\<And>mid s. distinct (topics s) \<Longrightarrow> distinct (topics (on_subscribe mid s))"
    by (simp add: topics_on_subscribe split: option.splits)
  have a: "distinct (topics (on_subscribe mid s))"
    using assms by (rule d)
  have b: "\<forall>p. pending_acks s (Some mid) = Some p \<longrightarrow>
             count_list (topics (on_subscribe mid s)) (topic_of p) = 1
             \<and> (topic_of p \<in> set (topics s) \<longrightarrow> topics (on_subscribe mid s) = topics s)"
  proof (intro allI impI conjI)
    fix p
    assume p: "pending_acks s (Some mid) = Some p"
    show "count_list (topics (on_subscribe mid s)) (topic_of p) = 1"
      using assms p by (rule on_subscribe_adds_once)
    assume "topic_of p \<in> set (topics s)"
    then show "topics (on_subscribe mid s) = topics s"
      using p by (simp add: topics_on_subscribe topics_add_topic_member)
  qed
  let ?s2 = "subscribe topic (r2, Some m2) (subscribe topic (r1, Some m1) s)"
  have s2: "distinct (topics ?s2)"
    using assms by simp
  have c1: "count_list (topics (on_subscribe m2 (on_subscribe m1 ?s2))) topic = 1"
    if "m1 \<noteq> m2"
  proof -
    have "pending_acks (on_subscribe m1 ?s2) (Some m2) = Some (TopicOnly topic)"
      using that by simp
    then show ?thesis
      using on_subscribe_adds_once [OF d [OF s2], of m1 m2 "TopicOnly topic"] by simp
  qed
  have c2: "count_list (topics (on_subscribe m1 (on_subscribe m2 ?s2))) topic = 1"
    if "m1 \<noteq> m2"
  proof -
    have "pending_acks (on_subscribe m2 ?s2) (Some m1) = Some (TopicOnly topic)"
      using that by simp
    then show ?thesis
      using on_subscribe_adds_once [OF d [OF s2], of m2 m1 "TopicOnly topic"] by simp
  qed
  let ?s1 = "on_subscribe m1 (subscribe topic (r1, Some m1) s)"
  have e: "count_list (topics (on_subscribe m2 (subscribe topic (r2, Some m2) ?s1))) topic = 1"
  proof -
    have "distinct (topics (subscribe topic (r2, Some m2) ?s1))"
      using assms by (simp add: d)
    moreover have "pending_acks (subscribe topic (r2, Some m2) ?s1) (Some m2)
                     = Some (TopicOnly topic)"
      by simp
    ultimately show ?thesis
      using on_subscribe_adds_once [of "subscribe topic (r2, Some m2) ?s1" m2 "TopicOnly topic"]
      by simp
  qed
  from a b c1 c2 e show ?thesis by simp
qed

theorem topic_set_idempotent_witness:
  "distinct (topics init_client)
   \<and> count_list (topics (on_subscribe 2 (on_subscribe 1
        (subscribe ''prd/app_subscriptions/device-42'' (0, Some 2)
          (subscribe ''prd/app_subscriptions/device-42'' (0, Some 1) init_client)))))
        ''prd/app_subscriptions/device-42'' = 1"
proof -
  have h: "distinct (topics init_client)"
    by (simp add: init_client_def)
  have n: "(1::nat) \<noteq> 2" by simp
  show ?thesis
    using topic_set_idempotent [OF h, of 0 1 2 "''prd/app_subscriptions/device-42''" 0 0] h n
    by simp
qed

subsection \<open>One reconnect cycle at a time\<close>






subsection \<open>The events of the retry loop\<close>

lemma loop_event_simps [simp]:
  "\<not> loop_event (Log l m)" "loop_event (Sleep t)" "loop_event Request" "loop_event (Connect h)"
  "\<not> loop_event (Subscribe topic)" "\<not> loop_event (AckSet e)" "\<not> loop_event (CreateTask n)"
  by (simp_all add: loop_event_def)

lemma loop_events_deliver [simp]:
  "filter loop_event (trace (deliver c s)) = filter loop_event (trace s)"
proof (cases c)
  case (OnConnect reason_code)
  then show ?thesis
    by (simp add: on_connect_def timer_start_def timer_cancel_def Let_def)
next
  case (OnDisconnect is_connected)
  then show ?thesis
    by (simp add: on_disconnect_def timer_cancel_def create_reconnect_task_def Let_def
             split: option.splits)
next
  case (OnSubscribe mid)
  then show ?thesis
    by (simp add: on_subscribe_def ack_evt_set_def Let_def
             split: option.splits pending_info.splits)
qed

lemma loop_events_deliver_all [simp]:
  "filter loop_event (trace (deliver_all cbs s)) = filter loop_event (trace s)"
  by (induction cbs arbitrary: s) simp_all

lemma wait_connect_evt_state: "snd (wait_connect_evt cbs s) = deliver_all cbs s"
proof (induction cbs arbitrary: s)
  case Nil
  then show ?case by simp
next
  case (Cons c cbs)
  from Cons [of "deliver c s"] show ?case
    by (cases "wait_connect_evt cbs (deliver c s)") simp
qed

lemma loop_events_send_subscribe:
  "filter loop_event (trace (snd (send_subscribe topic r s))) = filter loop_event (trace s)"
  by (simp add: send_subscribe_def Let_def split: sum.splits prod.splits)

lemma loop_events_subscribe_with_ack:
  "filter loop_event (trace (snd (subscribe_with_ack topic e s))) = filter loop_event (trace s)"
proof (cases "send_subscribe topic (subscribe_returns e) s")
  case (Pair x s1)
  with loop_events_send_subscribe [of topic "subscribe_returns e" s]
  have "filter loop_event (trace s1) = filter loop_event (trace s)" by simp
  with Pair show ?thesis
    by (cases x) (simp_all add: subscribe_with_ack_def Let_def)
qed

lemma loop_events_resubscribe:
  "filter loop_event (trace (snd (snd (resubscribe env ts acc s)))) = filter loop_event (trace s)"
proof (induction ts arbitrary: acc s)
  case Nil
  then show ?case by simp
next
  case (Cons topic rest)
  obtain r s1 where sw: "subscribe_with_ack topic (env topic) s = (r, s1)"
    by (cases "subscribe_with_ack topic (env topic) s")
  with loop_events_subscribe_with_ack [of topic "env topic" s]
  have s1: "filter loop_event (trace s1) = filter loop_event (trace s)" by simp
  show ?case
    using sw s1 Cons.IH
    by (auto simp: Let_def split: sum.splits prod.splits)
qed

lemma loop_events_clear_stale_acks [simp]:
  "filter loop_event (trace (clear_stale_acks s)) = filter loop_event (trace s)"
  by (simp add: clear_stale_acks_def Let_def)

lemma loop_events_restore_topics:
  "filter loop_event (trace (snd (restore_topics a s))) = filter loop_event (trace s)"
proof -
  let ?s1 = "clear_stale_acks s"
  let ?ts = "sort_key (hash_rank a) (remdups (topics ?s1))"
  obtain r succ s2 where rs: "resubscribe (resub a) ?ts [] ?s1 = (r, succ, s2)"
    by (cases "resubscribe (resub a) ?ts [] ?s1") auto
  with loop_events_resubscribe [of "resub a" ?ts "[]" ?s1]
  have "filter loop_event (trace s2) = filter loop_event (trace s)" by simp
  with rs show ?thesis
    by (simp add: restore_topics_def Let_def split: option.splits)
qed


lemma loop_events_await_connection:
  "filter loop_event (trace (snd (await_connection a s))) = filter loop_event (trace s)"
proof -
  obtain w s4 where w: "wait_connect_evt (wait_callbacks a) s = (w, s4)"
    by (cases "wait_connect_evt (wait_callbacks a) s")
  with wait_connect_evt_state [of "wait_callbacks a" s]
  have s4: "filter loop_event (trace s4) = filter loop_event (trace s)" by simp
  obtain r s5 where r: "restore_topics a s4 = (r, s5)"
    by (cases "restore_topics a s4")
  with loop_events_restore_topics [of a s4] s4
  have "filter loop_event (trace s5) = filter loop_event (trace s)" by simp
  with w r s4 show ?thesis
    by (simp add: await_connection_def split: option.splits)
qed

lemma loop_events_try_connect:
  "filter loop_event (trace (snd (try_connect a s)))
     = filter loop_event (trace s) @ Request # connects a"
  by (simp add: try_connect_def connects_def Let_def loop_events_await_connection
           split: sum.splits prod.splits option.splits)

lemma loop_events_attempt:
  "filter loop_event (trace (snd (snd (attempt a last_err s))))
     = filter loop_event (trace s) @ Request # connects a"
proof -
  obtain r s1 where r: "try_connect a s = (r, s1)"
    by (cases "try_connect a s")
  with loop_events_try_connect [of a s]
  have "filter loop_event (trace s1) = filter loop_event (trace s) @ Request # connects a"
    by simp
  with r show ?thesis
    by (simp add: attempt_def split: sum.splits bool.splits)
qed

lemma throttle_loop_delay: "(n \<le> 3 \<longrightarrow> t = 2) \<Longrightarrow> throttle n t = loop_delay n"
  by (auto simp: throttle_def loop_delay_def)

lemma loop_events_reconnect_loop:
  assumes "reconnect_loop env first n t last_err s = (r, n', s')"
    and "n \<le> 3 \<longrightarrow> t = 2"
  shows "n \<le> n' \<and> n' \<le> max n max_attempts
       \<and> (\<exists>tail. (tail = [] \<or> (r \<noteq> None \<and> n' < max_attempts \<and> \<not> (first \<and> n' = n)
                       \<and> tail = [Sleep (loop_delay n')]))
            \<and> filter loop_event (trace s')
                = filter loop_event (trace s)
                  @ concat (map (\<lambda>k. iteration_events env (first \<and> k = n) k) [n..<n']) @ tail)"
  using assms
proof (induction "max_attempts - n" arbitrary: n first t last_err s)
  case 0
  then have "\<not> n < max_attempts" by simp
  with "0.prems"(1) have "r = None" "n' = n" "s' = s"
    by (simp_all add: reconnect_loop.simps)
  then show ?case by simp
next
  case (Suc m)
  then have lt: "n < max_attempts" by simp
  define a where "a = env n"
  define t1 where "t1 = (if first then t else throttle n t)"
  define s1 where "s1 = (if first then s
                   else deliver_all (sleep_callbacks a)
                          (emit (Sleep t1) (log DEBUG ''MQTT throttle for %s seconds'' s)))"
  have t1: "\<not> first \<Longrightarrow> t1 = loop_delay n"
    using Suc.prems(2) by (simp add: t1_def throttle_loop_delay)
  have s1: "filter loop_event (trace s1)
              = filter loop_event (trace s) @ (if first then [] else [Sleep (loop_delay n)])"
    using t1 by (simp add: s1_def)
  define raised where "raised = (\<not> first \<and> sleep_raises a \<noteq> None)"
  have unfold: "reconnect_loop env first n t last_err s =
       (if raised then (sleep_raises a, n, s1)
        else
          (case attempt a last_err s1 of
             (Break, last_err', s2) \<Rightarrow> (None, Suc n, s2)
           | (Continue, last_err', s2) \<Rightarrow> reconnect_loop env False (Suc n) t1 last_err' s2
           | (Raise e, last_err', s2) \<Rightarrow> (Some e, Suc n, s2)))"
    unfolding a_def t1_def s1_def raised_def
    by (subst reconnect_loop.simps) (simp only: lt if_True Let_def)
  show ?case
  proof (cases raised)
    case True
    with unfold Suc.prems(1) have "r = sleep_raises a" "n' = n" "s' = s1" by simp_all
    moreover from True have "\<not> first" "sleep_raises a \<noteq> None" by (simp_all add: raised_def)
    ultimately show ?thesis using s1 lt by simp
  next
    case False
    obtain f le' s2 where att: "attempt a last_err s1 = (f, le', s2)"
      by (cases "attempt a last_err s1")
    with loop_events_attempt [of a last_err s1] s1
    have s2: "filter loop_event (trace s2)
                = filter loop_event (trace s) @ iteration_events env first n"
      by (simp add: iteration_events_def a_def)
    show ?thesis
    proof (cases f)
      case Break
      with unfold False att Suc.prems(1) have "r = None" "n' = Suc n" "s' = s2" by simp_all
      with s2 lt show ?thesis by simp
    next
      case (Raise e)
      with unfold False att Suc.prems(1) have "r = Some e" "n' = Suc n" "s' = s2" by simp_all
      with s2 lt show ?thesis by simp
    next
      case Continue
      with unfold False att Suc.prems(1)
      have rec: "reconnect_loop env False (Suc n) t1 le' s2 = (r, n', s')" by simp
      have m: "m = max_attempts - Suc n" using Suc.hyps(2) by simp
      have inv: "Suc n \<le> 3 \<longrightarrow> t1 = 2"
        using Suc.prems(2) by (auto simp: t1_def throttle_def)
      from Suc.hyps(1) [OF m rec inv]
      obtain tail where le: "Suc n \<le> n'" "n' \<le> max (Suc n) max_attempts"
        and tail: "tail = [] \<or> (r \<noteq> None \<and> n' < max_attempts \<and> tail = [Sleep (loop_delay n')])"
        and tr: "filter loop_event (trace s')
                = filter loop_event (trace s2)
                  @ concat (map (\<lambda>k. iteration_events env False k) [Suc n..<n']) @ tail"
        by auto
      have "map (\<lambda>k. iteration_events env (first \<and> k = n) k) [n..<n']
              = iteration_events env first n
                # map (\<lambda>k. iteration_events env False k) [Suc n..<n']"
        using le(1) by (simp add: upt_conv_Cons)
      with tr s2 have "filter loop_event (trace s')
                = filter loop_event (trace s)
                  @ concat (map (\<lambda>k. iteration_events env (first \<and> k = n) k) [n..<n']) @ tail"
        by simp
      moreover have "tail = [] \<or> (r \<noteq> None \<and> n' < max_attempts \<and> \<not> (first \<and> n' = n)
                       \<and> tail = [Sleep (loop_delay n')])"
        using tail le(1) by auto
      ultimately show ?thesis using le lt by auto
    qed
  qed
qed

lemma loop_events_do_reconnect:
  assumes "\<not> reconnect_evt s"
  shows "\<exists>r n' s2 tail. reconnect_loop env first 0 2 (PyException [])
             ((log INFO ''Attempting MQTT Connect/Reconnect'' s)\<lparr>reconnect_evt := True\<rparr>)
             = (r, n', s2)
       \<and> fst (do_reconnect first env s) = r
       \<and> n' \<le> max_attempts
       \<and> (tail = [] \<or> (r \<noteq> None \<and> n' < max_attempts \<and> \<not> (first \<and> n' = 0)
                       \<and> tail = [Sleep (loop_delay n')]))
       \<and> filter loop_event (trace (snd (do_reconnect first env s)))
           = filter loop_event (trace s)
             @ concat (map (\<lambda>k. iteration_events env (first \<and> k = 0) k) [0..<n']) @ tail"
proof -
  let ?s1 = "(log INFO ''Attempting MQTT Connect/Reconnect'' s)\<lparr>reconnect_evt := True\<rparr>"
  obtain r n' s2 where loop: "reconnect_loop env first 0 2 (PyException []) ?s1 = (r, n', s2)"
    by (cases "reconnect_loop env first 0 2 (PyException []) ?s1") auto
  from loop_events_reconnect_loop [OF loop]
  obtain tail where n': "n' \<le> max_attempts"
    and tail: "tail = [] \<or> (r \<noteq> None \<and> n' < max_attempts \<and> \<not> (first \<and> n' = 0)
                       \<and> tail = [Sleep (loop_delay n')])"
    and tr: "filter loop_event (trace s2)
           = filter loop_event (trace ?s1)
             @ concat (map (\<lambda>k. iteration_events env (first \<and> k = 0) k) [0..<n']) @ tail"
    by auto
  have r: "fst (do_reconnect first env s) = r"
    using assms loop by (simp add: do_reconnect_def Let_def split: option.splits)
  have "filter loop_event (trace (snd (do_reconnect first env s))) = filter loop_event (trace s2)"
    using assms loop
    by (simp add: do_reconnect_def finally_clear_def Let_def split: option.splits)
  with tr have "filter loop_event (trace (snd (do_reconnect first env s)))
           = filter loop_event (trace s)
             @ concat (map (\<lambda>k. iteration_events env (first \<and> k = 0) k) [0..<n']) @ tail"
    by simp
  with loop r n' tail show ?thesis by blast
qed

lemma filter_sub_loop_event:
  assumes "\<And>e. P e \<Longrightarrow> loop_event e"
  shows "filter P (filter loop_event xs) = filter P xs"
  using assms by (induction xs) auto

subsection \<open>Bounded retries\<close>

lemma nothing_scheduled_refl [simp]: "nothing_scheduled s s"
  by (simp add: nothing_scheduled_def)

lemma nothing_scheduled_trans:
  "nothing_scheduled s s1 \<Longrightarrow> nothing_scheduled s1 s2 \<Longrightarrow> nothing_scheduled s s2"
  by (simp add: nothing_scheduled_def)

lemma quiet_deliver:
  assumes "quiet c" and "\<not> connect_evt s"
  shows "\<not> connect_evt (deliver c s) \<and> nothing_scheduled s (deliver c s)"
proof (cases c)
  case (OnConnect reason_code)
  with assms show ?thesis
    by (simp add: on_connect_def nothing_scheduled_def Let_def)
next
  case (OnDisconnect is_connected)
  with assms show ?thesis
    by (simp add: on_disconnect_def nothing_scheduled_def Let_def split: option.splits)
next
  case (OnSubscribe mid)
  with assms show ?thesis
    by (simp add: on_subscribe_def ack_evt_set_def add_topic_def nothing_scheduled_def Let_def
             split: option.splits pending_info.splits)
qed

lemma quiet_deliver_all:
  "list_all quiet cbs \<Longrightarrow> \<not> connect_evt s \<Longrightarrow>
     \<not> connect_evt (deliver_all cbs s) \<and> nothing_scheduled s (deliver_all cbs s)"
proof (induction cbs arbitrary: s)
  case Nil
  then show ?case by simp
next
  case (Cons c cbs)
  from Cons.prems have q: "quiet c" and qs: "list_all quiet cbs" by simp_all
  from quiet_deliver [OF q Cons.prems(2)]
  have 1: "\<not> connect_evt (deliver c s)" and 2: "nothing_scheduled s (deliver c s)" by simp_all
  from Cons.IH [OF qs 1] 2 show ?case
    by (auto intro: nothing_scheduled_trans)
qed

lemma quiet_wait_connect_evt:
  "list_all quiet cbs \<Longrightarrow> \<not> connect_evt s \<Longrightarrow> \<not> fst (wait_connect_evt cbs s)"
proof (induction cbs arbitrary: s)
  case Nil
  then show ?case by simp
next
  case (Cons c cbs)
  from Cons.prems have q: "quiet c" and qs: "list_all quiet cbs" by simp_all
  from quiet_deliver [OF q Cons.prems(2)] have "\<not> connect_evt (deliver c s)" by simp
  from Cons.IH [OF qs this] Cons.prems(2) show ?case
    by (cases "wait_connect_evt cbs (deliver c s)") simp
qed

lemma get_mqtt_info_not_cancelled: "get_mqtt_info r \<noteq> Inl CancelledError"
  by (simp add: get_mqtt_info_def split: sum.splits option.splits)

lemma no_connection_await:
  assumes "list_all quiet (wait_callbacks a)" and "wait_raises a \<noteq> CancelledError"
    and "\<not> connect_evt s"
  shows "\<exists>e s'. await_connection a s = (Inl e, s') \<and> e \<noteq> CancelledError
           \<and> \<not> connect_evt s' \<and> nothing_scheduled s s'"
proof -
  obtain w s4 where w: "wait_connect_evt (wait_callbacks a) s = (w, s4)"
    by (cases "wait_connect_evt (wait_callbacks a) s")
  with quiet_wait_connect_evt [OF assms(1,3)] have "\<not> w" by simp
  moreover from w wait_connect_evt_state [of "wait_callbacks a" s]
  have "s4 = deliver_all (wait_callbacks a) s" by simp
  with quiet_deliver_all [OF assms(1,3)]
  have "\<not> connect_evt s4" "nothing_scheduled s s4" by simp_all
  ultimately show ?thesis
    using w assms(2) by (simp add: await_connection_def)
qed

lemma no_connection_try_connect:
  assumes "no_connection a" and "\<not> connect_evt s"
  shows "\<exists>e s'. try_connect a s = (Inl e, s') \<and> e \<noteq> CancelledError
           \<and> \<not> connect_evt s' \<and> nothing_scheduled s s'"
proof -
  from assms(1) have q: "list_all quiet (request_callbacks a)"
    "list_all quiet (connect_callbacks a)" "list_all quiet (wait_callbacks a)"
    "connect_raises a \<noteq> Some CancelledError" "wait_raises a \<noteq> CancelledError"
    by (simp_all add: no_connection_def)
  define s1 where "s1 = deliver_all (request_callbacks a) (emit Request s)"
  have "\<not> connect_evt (emit Request s)" "nothing_scheduled s (emit Request s)"
    using assms(2) by (simp_all add: nothing_scheduled_def)
  with quiet_deliver_all [OF q(1), of "emit Request s"]
  have s1: "\<not> connect_evt s1" "nothing_scheduled s s1"
    by (auto simp: s1_def intro: nothing_scheduled_trans)
  show ?thesis
  proof (cases "get_mqtt_info (response a)")
    case (Inl e)
    with get_mqtt_info_not_cancelled [of "response a"] have "e \<noteq> CancelledError" by auto
    with Inl s1 show ?thesis
      by (simp add: try_connect_def s1_def Let_def)
  next
    case (Inr hp)
    obtain h path where hp: "hp = (h, path)" by (cases hp)
    define s2 where "s2 = emit (Connect h)
                         (emit (Log INFO ''Attempting to reconnnect...'') (s1\<lparr>host := Some h\<rparr>))"
    define s3 where "s3 = deliver_all (connect_callbacks a) s2"
    have "\<not> connect_evt s2" "nothing_scheduled s1 s2"
      using s1(1) by (simp_all add: s2_def nothing_scheduled_def)
    with quiet_deliver_all [OF q(2), of s2] s1(2)
    have s3: "\<not> connect_evt s3" "nothing_scheduled s s3"
      by (auto simp: s3_def intro: nothing_scheduled_trans)
    have tc: "try_connect a s =
        (case connect_raises a of Some e \<Rightarrow> (Inl e, s3) | None \<Rightarrow> await_connection a s3)"
      using Inr hp unfolding s3_def s2_def s1_def
      by (simp add: try_connect_def Let_def)
    show ?thesis
    proof (cases "connect_raises a")
      case (Some e)
      with q(4) have "e \<noteq> CancelledError" by simp
      with Some tc s3 show ?thesis by simp
    next
      case None
      from no_connection_await [OF q(3) q(5) s3(1)]
      obtain e s' where "await_connection a s3 = (Inl e, s')" "e \<noteq> CancelledError"
        "\<not> connect_evt s'" "nothing_scheduled s3 s'" by blast
      with None tc s3(2) show ?thesis
        by (auto intro: nothing_scheduled_trans)
    qed
  qed
qed

lemma no_connection_attempt:
  assumes "no_connection a" and "\<not> connect_evt s"
  shows "\<exists>le' s'. attempt a last_err s = (Continue, le', s')
           \<and> \<not> connect_evt s' \<and> nothing_scheduled s s'"
proof -
  from no_connection_try_connect [OF assms]
  obtain e s1 where tc: "try_connect a s = (Inl e, s1)" and e: "e \<noteq> CancelledError"
    and s1: "\<not> connect_evt s1" "nothing_scheduled s s1" by blast
  then show ?thesis
    by (simp add: attempt_def nothing_scheduled_def)
qed


lemma reconnect_loop_done:
  "\<not> n < max_attempts \<Longrightarrow> reconnect_loop env first n t last_err s = (None, n, s)"
  by (subst reconnect_loop.simps) simp

lemma no_connection_loop:
  assumes "\<forall>k<max_attempts. no_connection (env k)" and "\<not> connect_evt s"
  shows "\<exists>s'. reconnect_loop env first n t last_err s = (None, max n max_attempts, s')
           \<and> \<not> connect_evt s' \<and> nothing_scheduled s s'"
  using assms(2)
proof (induction "max_attempts - n" arbitrary: n first t last_err s)
  case 0
  then have "\<not> n < max_attempts" by simp
  with reconnect_loop_done [OF this] "0.prems" show ?case
    by (simp add: max_def)
next
  case (Suc m)
  then have lt: "n < max_attempts" by simp
  define a where "a = env n"
  define t1 where "t1 = (if first then t else throttle n t)"
  define s1 where "s1 = (if first then s
                   else deliver_all (sleep_callbacks a)
                          (emit (Sleep t1) (log DEBUG ''MQTT throttle for %s seconds'' s)))"
  define raised where "raised = (\<not> first \<and> sleep_raises a \<noteq> None)"
  have unfold: "reconnect_loop env first n t last_err s =
       (if raised then (sleep_raises a, n, s1)
        else
          (case attempt a last_err s1 of
             (Break, last_err', s2) \<Rightarrow> (None, Suc n, s2)
           | (Continue, last_err', s2) \<Rightarrow> reconnect_loop env False (Suc n) t1 last_err' s2
           | (Raise e, last_err', s2) \<Rightarrow> (Some e, Suc n, s2)))"
    unfolding a_def t1_def s1_def raised_def
    by (subst reconnect_loop.simps) (simp only: lt if_True Let_def)
  from assms(1) lt have nc: "no_connection a" by (simp add: a_def)
  then have q: "list_all quiet (sleep_callbacks a)" "sleep_raises a = None"
    by (simp_all add: no_connection_def)
  have nr: "\<not> raised" using q(2) by (simp add: raised_def)
  have "\<not> connect_evt (emit (Sleep t1) (log DEBUG ''MQTT throttle for %s seconds'' s))"
    "nothing_scheduled s (emit (Sleep t1) (log DEBUG ''MQTT throttle for %s seconds'' s))"
    using Suc.prems by (simp_all add: nothing_scheduled_def)
  with quiet_deliver_all [OF q(1),
         of "emit (Sleep t1) (log DEBUG ''MQTT throttle for %s seconds'' s)"] Suc.prems
  have s1: "\<not> connect_evt s1" "nothing_scheduled s s1"
    by (auto simp: s1_def intro: nothing_scheduled_trans)
  from no_connection_attempt [OF nc s1(1), of last_err]
  obtain le' s2 where att: "attempt a last_err s1 = (Continue, le', s2)"
    and s2: "\<not> connect_evt s2" "nothing_scheduled s1 s2" by blast
  from unfold nr att
  have rec: "reconnect_loop env first n t last_err s
               = reconnect_loop env False (Suc n) t1 le' s2" by simp
  have m: "m = max_attempts - Suc n" using Suc.hyps(2) by simp
  from Suc.hyps(1) [OF m s2(1), of False t1 le']
  obtain s' where "reconnect_loop env False (Suc n) t1 le' s2
                     = (None, max (Suc n) max_attempts, s')"
    "\<not> connect_evt s'" "nothing_scheduled s2 s'" by blast
  moreover have "max (Suc n) max_attempts = max n max_attempts" using lt by simp
  ultimately show ?case
    using rec s1(2) s2(2) by (auto intro: nothing_scheduled_trans)
qed

lemma requests_iteration [simp]:
  "filter is_Request (iteration_events env b k) = [Request]"
  by (simp add: iteration_events_def connects_def split: sum.splits)

lemma connects_iteration:
  "length (filter is_Connect (iteration_events env b k)) \<le> 1"
  by (simp add: iteration_events_def connects_def split: sum.splits)

lemma requests_iterations:
  "filter is_Request (concat (map (\<lambda>k. iteration_events env (b k) k) [0..<n]))
     = replicate n Request"
  by (induction n) (simp_all add: replicate_append_same)

lemma connects_iterations:
  "length (filter is_Connect (concat (map (\<lambda>k. iteration_events env (b k) k) [0..<n]))) \<le> n"
proof (induction n)
  case 0
  then show ?case by simp
next
  case (Suc n)
  with connects_iteration [of env "b n" n] show ?case by simp
qed

lemma attempts_do_reconnect:
  "\<exists>n\<le>max_attempts.
      filter is_Request (trace (snd (do_reconnect first env s)))
        = filter is_Request (trace s) @ replicate n Request
    \<and> length (filter is_Connect (trace (snd (do_reconnect first env s))))
        \<le> length (filter is_Connect (trace s)) + n"
proof (cases "reconnect_evt s")
  case True
  then have "filter is_Request (trace (snd (do_reconnect first env s)))
        = filter is_Request (trace s) @ replicate 0 Request
    \<and> length (filter is_Connect (trace (snd (do_reconnect first env s))))
        \<le> length (filter is_Connect (trace s)) + 0"
    by (simp add: do_reconnect_def)
  then show ?thesis by blast
next
  case False
  from loop_events_do_reconnect [OF False, of env first]
  obtain r :: "exc option" and n' tail where n': "n' \<le> max_attempts"
    and tail: "tail = [] \<or> tail = [Sleep (loop_delay n')]"
    and tr: "filter loop_event (trace (snd (do_reconnect first env s)))
           = filter loop_event (trace s)
             @ concat (map (\<lambda>k. iteration_events env (first \<and> k = 0) k) [0..<n']) @ tail"
    by auto
  have tl: "filter is_Request tail = []" "filter is_Connect tail = []"
    using tail by auto
  have sub: "\<And>e. is_Request e \<Longrightarrow> loop_event e" "\<And>e. is_Connect e \<Longrightarrow> loop_event e"
    by (auto simp: loop_event_def)
  have "filter is_Request (filter loop_event (trace (snd (do_reconnect first env s))))
           = filter is_Request (filter loop_event (trace s)
             @ concat (map (\<lambda>k. iteration_events env (first \<and> k = 0) k) [0..<n']) @ tail)"
    by (simp only: tr)
  then have 1: "filter is_Request (trace (snd (do_reconnect first env s)))
        = filter is_Request (trace s) @ replicate n' Request"
    by (simp only: filter_sub_loop_event [OF sub(1)] filter_append requests_iterations tl
                   append_Nil2)
  have "filter is_Connect (filter loop_event (trace (snd (do_reconnect first env s))))
           = filter is_Connect (filter loop_event (trace s)
             @ concat (map (\<lambda>k. iteration_events env (first \<and> k = 0) k) [0..<n']) @ tail)"
    by (simp only: tr)
  then have "filter is_Connect (trace (snd (do_reconnect first env s)))
        = filter is_Connect (trace s)
          @ filter is_Connect
              (concat (map (\<lambda>k. iteration_events env (first \<and> k = 0) k) [0..<n']))"
    by (simp only: filter_sub_loop_event [OF sub(2)] filter_append tl append_Nil2)
  with connects_iterations [of env "\<lambda>k. first \<and> k = 0" n']
  have 2: "length (filter is_Connect (trace (snd (do_reconnect first env s))))
        \<le> length (filter is_Connect (trace s)) + n'"
    by simp
  from n' 1 2 show ?thesis by blast
qed

lemma giving_up:
  assumes "\<not> reconnect_evt s" and "\<not> connect_evt s"
    and "\<forall>k<max_attempts. no_connection (env k)"
  shows "fst (do_reconnect first env s) = None
       \<and> filter loop_event (trace (snd (do_reconnect first env s)))
           = filter loop_event (trace s)
             @ concat (map (\<lambda>k. iteration_events env (first \<and> k = 0) k) [0..<max_attempts])
       \<and> filter is_Request (trace (snd (do_reconnect first env s)))
           = filter is_Request (trace s) @ replicate max_attempts Request
       \<and> last (trace (snd (do_reconnect first env s)))
           = Log ERROR ''Max reconnection attempts (%d) reached, giving up''
       \<and> nothing_scheduled s (snd (do_reconnect first env s))
       \<and> \<not> connect_evt (snd (do_reconnect first env s))
       \<and> \<not> reconnect_evt (snd (do_reconnect first env s))
       \<and> connect_task (snd (do_reconnect first env s)) = None"
proof -
  let ?s1 = "(log INFO ''Attempting MQTT Connect/Reconnect'' s)\<lparr>reconnect_evt := True\<rparr>"
  have s1: "\<not> connect_evt ?s1" "nothing_scheduled s ?s1"
    using assms(2) by (simp_all add: nothing_scheduled_def)
  from no_connection_loop [OF assms(3) s1(1), of first 0 2 "PyException []"]
  obtain s2 where loop: "reconnect_loop env first 0 2 (PyException []) ?s1
                           = (None, max_attempts, s2)"
    and s2: "\<not> connect_evt s2" "nothing_scheduled ?s1 s2" by auto
  have res: "do_reconnect first env s
      = (None, finally_clear
                 (log ERROR ''Max reconnection attempts (%d) reached, giving up'' s2))"
    using assms(1) loop by (simp add: do_reconnect_def Let_def)
  from loop_events_do_reconnect [OF assms(1), of env first] loop
  obtain tail where tail: "tail = []"
    and tr: "filter loop_event (trace (snd (do_reconnect first env s)))
           = filter loop_event (trace s)
             @ concat (map (\<lambda>k. iteration_events env (first \<and> k = 0) k) [0..<max_attempts])
             @ tail"
    by auto
  have sub: "\<And>e. is_Request e \<Longrightarrow> loop_event e"
    by (auto simp: loop_event_def)
  have "filter is_Request (filter loop_event (trace (snd (do_reconnect first env s))))
           = filter is_Request (filter loop_event (trace s)
             @ concat (map (\<lambda>k. iteration_events env (first \<and> k = 0) k) [0..<max_attempts])
             @ [])"
    by (simp only: tr tail)
  then have 1: "filter is_Request (trace (snd (do_reconnect first env s)))
        = filter is_Request (trace s) @ replicate max_attempts Request"
    by (simp only: filter_sub_loop_event [OF sub] filter_append requests_iterations
                   append_Nil2)
  have 2: "nothing_scheduled s (snd (do_reconnect first env s))"
    using s1(2) s2(2) by (simp add: res finally_clear_def nothing_scheduled_def)
  have 0: "filter loop_event (trace (snd (do_reconnect first env s)))
           = filter loop_event (trace s)
             @ concat (map (\<lambda>k. iteration_events env (first \<and> k = 0) k) [0..<max_attempts])"
    using tr tail by simp
  have 3: "fst (do_reconnect first env s) = None
       \<and> last (trace (snd (do_reconnect first env s)))
           = Log ERROR ''Max reconnection attempts (%d) reached, giving up''
       \<and> \<not> connect_evt (snd (do_reconnect first env s))
       \<and> \<not> reconnect_evt (snd (do_reconnect first env s))
       \<and> connect_task (snd (do_reconnect first env s)) = None"
    using s2(1) by (simp add: res finally_clear_def)
  from 0 1 2 3 show ?thesis by blast
qed

text \<open>
  Claim C1. A call of the reconnect coroutine requests the connection info at most 20
  times and calls the transport's connect at most 20 times. If during the first 20
  iterations no connection is reported and nothing is cancelled, the cycle makes exactly
  20 attempts, writes the error line about giving up as its last effect and returns
  without an exception; it has created no task and has not touched the timer, and it
  leaves the client disconnected with the in-progress flag and the task handle cleared.
\<close>

theorem bounded_retries:
  "length (filter is_Request (trace (snd (do_reconnect first env s))))
     \<le> length (filter is_Request (trace s)) + 20
   \<and> length (filter is_Connect (trace (snd (do_reconnect first env s))))
     \<le> length (filter is_Connect (trace s)) + 20
   \<and> (\<not> reconnect_evt s \<and> \<not> connect_evt s \<and> (\<forall>k<20. no_connection (env k)) \<longrightarrow>
        fst (do_reconnect first env s) = None
      \<and> length (filter is_Request (trace (snd (do_reconnect first env s))))
          = length (filter is_Request (trace s)) + 20
      \<and> last (trace (snd (do_reconnect first env s)))
          = Log ERROR ''Max reconnection attempts (%d) reached, giving up''
      \<and> nothing_scheduled s (snd (do_reconnect first env s))
      \<and> \<not> connect_evt (snd (do_reconnect first env s))
      \<and> \<not> reconnect_evt (snd (do_reconnect first env s))
      \<and> connect_task (snd (do_reconnect first env s)) = None)"
proof -
  from attempts_do_reconnect [of first env s]
  obtain n where "n \<le> 20"
    "filter is_Request (trace (snd (do_reconnect first env s)))
        = filter is_Request (trace s) @ replicate n Request"
    "length (filter is_Connect (trace (snd (do_reconnect first env s))))
        \<le> length (filter is_Connect (trace s)) + n"
    by (auto simp: max_attempts_def)
  then have a: "length (filter is_Request (trace (snd (do_reconnect first env s))))
     \<le> length (filter is_Request (trace s)) + 20"
    and b: "length (filter is_Connect (trace (snd (do_reconnect first env s))))
     \<le> length (filter is_Connect (trace s)) + 20"
    by simp_all
  have c: "fst (do_reconnect first env s) = None
      \<and> length (filter is_Request (trace (snd (do_reconnect first env s))))
          = length (filter is_Request (trace s)) + 20
      \<and> last (trace (snd (do_reconnect first env s)))
          = Log ERROR ''Max reconnection attempts (%d) reached, giving up''
      \<and> nothing_scheduled s (snd (do_reconnect first env s))
      \<and> \<not> connect_evt (snd (do_reconnect first env s))
      \<and> \<not> reconnect_evt (snd (do_reconnect first env s))
      \<and> connect_task (snd (do_reconnect first env s)) = None"
    if h: "\<not> reconnect_evt s \<and> \<not> connect_evt s \<and> (\<forall>k<20. no_connection (env k))"
  proof -
    from h have "\<not> reconnect_evt s" "\<not> connect_evt s" "\<forall>k<max_attempts. no_connection (env k)"
      by (simp_all add: max_attempts_def)
    from giving_up [OF this, of first] show ?thesis
      by (simp add: max_attempts_def)
  qed
  from a b c show ?thesis by blast
qed

lemma no_connection_env_offline: "no_connection env_offline"
  by (simp add: no_connection_def env_offline_def)

theorem bounded_retries_witness:
  "\<not> reconnect_evt init_client \<and> \<not> connect_evt init_client
   \<and> no_connection env_offline
   \<and> fst (do_reconnect True (\<lambda>_. env_offline) init_client) = None
   \<and> length (filter is_Request (trace (snd (do_reconnect True (\<lambda>_. env_offline) init_client))))
       = 20
   \<and> last (trace (snd (do_reconnect True (\<lambda>_. env_offline) init_client)))
       = Log ERROR ''Max reconnection attempts (%d) reached, giving up''"
proof -
  have h: "\<not> reconnect_evt init_client" "\<not> connect_evt init_client"
    "filter is_Request (trace init_client) = []"
    by (simp_all add: init_client_def)
  show ?thesis
    using bounded_retries [of True "\<lambda>_. env_offline" init_client] h no_connection_env_offline
    by simp
qed

subsection \<open>The backoff schedule\<close>

lemma sleep_or_request_iteration:
  "filter sleep_or_request (iteration_events env (k = 0) k)
     = (if k = 0 then [] else [Sleep (loop_delay k)]) @ [Request]"
  by (auto simp: iteration_events_def connects_def sleep_or_request_def split: sum.splits)

lemma sleep_or_request_timeline:
  "filter sleep_or_request (concat (map (\<lambda>k. iteration_events env (True \<and> k = 0) k) [0..<n]))
     = timeline n"
  by (induction n) (simp_all add: timeline_def schedule_def sleep_or_request_iteration)

lemma loop_delay_values:
  "loop_delay k = (if k \<le> 3 then 2 else if k \<le> 6 then 10 else 60)"
  by (simp add: loop_delay_def throttle_def)

lemma loop_delay_mono: "j \<le> k \<Longrightarrow> loop_delay j \<le> loop_delay k"
  by (simp add: loop_delay_values)

lemma schedule_Suc:
  "schedule delay (Suc n)
     = schedule delay n @ (if n = 0 then [] else [Sleep (delay n)]) @ [Request]"
  by (simp add: schedule_def)

lemma schedule_0: "schedule delay 0 = []"
  by (simp add: schedule_def)

lemma timeline_20:
  "timeline 20
     = [Request, Sleep 2, Request, Sleep 2, Request, Sleep 2, Request,
        Sleep 10, Request, Sleep 10, Request, Sleep 10, Request,
        Sleep 60, Request, Sleep 60, Request, Sleep 60, Request, Sleep 60, Request,
        Sleep 60, Request, Sleep 60, Request, Sleep 60, Request, Sleep 60, Request,
        Sleep 60, Request, Sleep 60, Request, Sleep 60, Request, Sleep 60, Request,
        Sleep 60, Request]"
  by (simp add: timeline_def eval_nat_numeral schedule_Suc schedule_0 loop_delay_values)

lemma claimed_timeline_20:
  "claimed_timeline 20
     = [Request, Sleep 2, Request, Sleep 2, Request,
        Sleep 10, Request, Sleep 10, Request, Sleep 10, Request,
        Sleep 60, Request, Sleep 60, Request, Sleep 60, Request, Sleep 60, Request,
        Sleep 60, Request, Sleep 60, Request, Sleep 60, Request, Sleep 60, Request,
        Sleep 60, Request, Sleep 60, Request, Sleep 60, Request, Sleep 60, Request,
        Sleep 60, Request, Sleep 60, Request]"
  by (simp add: claimed_timeline_def eval_nat_numeral schedule_Suc schedule_0 claimed_delay_def)

lemma exhausted_schedule:
  assumes "\<not> reconnect_evt s" and "\<not> connect_evt s"
    and "\<forall>k<max_attempts. no_connection (env k)"
  shows "filter sleep_or_request (trace (snd (do_reconnect True env s)))
           = filter sleep_or_request (trace s) @ timeline max_attempts"
proof -
  from giving_up [OF assms, of True]
  have tr: "filter loop_event (trace (snd (do_reconnect True env s)))
           = filter loop_event (trace s)
             @ concat (map (\<lambda>k. iteration_events env (True \<and> k = 0) k) [0..<max_attempts])"
    by simp
  have sub: "\<And>e. sleep_or_request e \<Longrightarrow> loop_event e"
    by (auto simp: sleep_or_request_def loop_event_def)
  have "filter sleep_or_request (filter loop_event (trace (snd (do_reconnect True env s))))
           = filter sleep_or_request (filter loop_event (trace s)
             @ concat (map (\<lambda>k. iteration_events env (True \<and> k = 0) k) [0..<max_attempts]))"
    by (simp only: tr)
  then show ?thesis
    by (simp only: filter_sub_loop_event [OF sub] filter_append sleep_or_request_timeline)
qed

text \<open>
  Claim C2, as stated: the wait becomes about 10 seconds after attempt 3 and about 60
  seconds after attempt 6. In a cycle of 20 failing attempts the sleeps and requests are
  the following: the wait that follows attempt 3 is still 2 seconds and the wait that
  follows attempt 6 is still 10 seconds, so the schedule is not the one of the claim.
\<close>

theorem backoff_bands_as_claimed_refuted:
  "filter sleep_or_request (trace (snd (do_reconnect True (\<lambda>_. env_offline) init_client)))
     = [Request, Sleep 2, Request, Sleep 2, Request, Sleep 2, Request,
        Sleep 10, Request, Sleep 10, Request, Sleep 10, Request,
        Sleep 60, Request, Sleep 60, Request, Sleep 60, Request, Sleep 60, Request,
        Sleep 60, Request, Sleep 60, Request, Sleep 60, Request, Sleep 60, Request,
        Sleep 60, Request, Sleep 60, Request, Sleep 60, Request, Sleep 60, Request,
        Sleep 60, Request]
   \<and> claimed_timeline 20
     = [Request, Sleep 2, Request, Sleep 2, Request,
        Sleep 10, Request, Sleep 10, Request, Sleep 10, Request,
        Sleep 60, Request, Sleep 60, Request, Sleep 60, Request, Sleep 60, Request,
        Sleep 60, Request, Sleep 60, Request, Sleep 60, Request, Sleep 60, Request,
        Sleep 60, Request, Sleep 60, Request, Sleep 60, Request, Sleep 60, Request,
        Sleep 60, Request, Sleep 60, Request]
   \<and> filter sleep_or_request (trace (snd (do_reconnect True (\<lambda>_. env_offline) init_client)))
       \<noteq> claimed_timeline 20"
proof -
  have h: "\<not> reconnect_evt init_client" "\<not> connect_evt init_client"
    "filter sleep_or_request (trace init_client) = []"
    by (simp_all add: init_client_def sleep_or_request_def)
  have "\<forall>k<max_attempts. no_connection ((\<lambda>_. env_offline) k)"
    by (simp add: no_connection_env_offline)
  from exhausted_schedule [OF h(1,2) this] h(3)
  have "filter sleep_or_request (trace (snd (do_reconnect True (\<lambda>_. env_offline) init_client)))
          = timeline 20"
    by (simp add: max_attempts_def)
  then show ?thesis
    by (simp only: timeline_20 claimed_timeline_20) simp
qed

text \<open>
  Claim C2, amended. In a cycle started with \<^verbatim>\<open>first\<close> set, as every caller in the
  module starts it, the sleeps and requests of the cycle are those of the source's
  timeline for the number of attempts made, possibly followed by the one sleep during
  which the cycle was cancelled; a cycle in which no connection is reported and nothing is
  cancelled runs through the whole timeline of 20 attempts. In the timeline there is no
  sleep before the first attempt; the sleep is 2 seconds after each of the attempts 1 to
  3, becomes 10 seconds after attempt 4 and 60 seconds after attempt 7, and stays there.
  The delays never decrease.
\<close>

theorem backoff_schedule:
  assumes "\<not> reconnect_evt s"
  shows "(\<exists>n tail. n \<le> 20 \<and> (tail = [] \<or> (0 < n \<and> n < 20 \<and> tail = [Sleep (loop_delay n)]))
            \<and> filter sleep_or_request (trace (snd (do_reconnect True env s)))
                = filter sleep_or_request (trace s) @ timeline n @ tail)
       \<and> (\<not> connect_evt s \<and> (\<forall>k<20. no_connection (env k)) \<longrightarrow>
            filter sleep_or_request (trace (snd (do_reconnect True env s)))
              = filter sleep_or_request (trace s) @ timeline 20)
       \<and> timeline 20
           = [Request] @ concat (replicate 3 [Sleep 2, Request])
             @ concat (replicate 3 [Sleep 10, Request])
             @ concat (replicate 13 [Sleep 60, Request])
       \<and> (\<forall>n. timeline (Suc n)
                = timeline n @ (if n = 0 then [] else [Sleep (loop_delay n)]) @ [Request])
       \<and> (\<forall>k. 1 \<le> k \<and> k \<le> 3 \<longrightarrow> loop_delay k = 2)
       \<and> (\<forall>k. 4 \<le> k \<and> k \<le> 6 \<longrightarrow> loop_delay k = 10)
       \<and> (\<forall>k. 7 \<le> k \<longrightarrow> loop_delay k = 60)
       \<and> (\<forall>j k. j \<le> k \<longrightarrow> loop_delay j \<le> loop_delay k)"
proof -
  from loop_events_do_reconnect [OF assms, of env True]
  obtain r :: "exc option" and n' tail where n': "n' \<le> max_attempts"
    and tail: "tail = [] \<or> (r \<noteq> None \<and> n' < max_attempts \<and> n' \<noteq> 0
                 \<and> tail = [Sleep (loop_delay n')])"
    and tr: "filter loop_event (trace (snd (do_reconnect True env s)))
           = filter loop_event (trace s)
             @ concat (map (\<lambda>k. iteration_events env (True \<and> k = 0) k) [0..<n']) @ tail"
    by auto
  have sub: "\<And>e. sleep_or_request e \<Longrightarrow> loop_event e"
    by (auto simp: sleep_or_request_def loop_event_def)
  have "filter sleep_or_request (filter loop_event (trace (snd (do_reconnect True env s))))
           = filter sleep_or_request (filter loop_event (trace s)
             @ concat (map (\<lambda>k. iteration_events env (True \<and> k = 0) k) [0..<n']) @ tail)"
    by (simp only: tr)
  then have "filter sleep_or_request (trace (snd (do_reconnect True env s)))
           = filter sleep_or_request (trace s) @ timeline n' @ filter sleep_or_request tail"
    by (simp only: filter_sub_loop_event [OF sub] filter_append sleep_or_request_timeline)
  moreover have "filter sleep_or_request tail = tail"
    using tail by (auto simp: sleep_or_request_def)
  moreover have "tail = [] \<or> (0 < n' \<and> n' < 20 \<and> tail = [Sleep (loop_delay n')])"
    using tail by (auto simp: max_attempts_def)
  moreover have "n' \<le> 20" using n' by (simp add: max_attempts_def)
  ultimately have a: "\<exists>n tail. n \<le> 20
            \<and> (tail = [] \<or> (0 < n \<and> n < 20 \<and> tail = [Sleep (loop_delay n)]))
            \<and> filter sleep_or_request (trace (snd (do_reconnect True env s)))
                = filter sleep_or_request (trace s) @ timeline n @ tail"
    by auto
  have b: "\<not> connect_evt s \<and> (\<forall>k<20. no_connection (env k)) \<longrightarrow>
            filter sleep_or_request (trace (snd (do_reconnect True env s)))
              = filter sleep_or_request (trace s) @ timeline 20"
    using exhausted_schedule [OF assms, of env] by (simp add: max_attempts_def)
  have c: "timeline 20
           = [Request] @ concat (replicate 3 [Sleep 2, Request])
             @ concat (replicate 3 [Sleep 10, Request])
             @ concat (replicate 13 [Sleep 60, Request])"
    by (simp only: timeline_20) (simp add: eval_nat_numeral)
  have d: "\<forall>n. timeline (Suc n)
                = timeline n @ (if n = 0 then [] else [Sleep (loop_delay n)]) @ [Request]"
    by (simp add: timeline_def schedule_Suc)
  have e: "\<forall>k. 1 \<le> k \<and> k \<le> 3 \<longrightarrow> loop_delay k = 2"
    "\<forall>k. 4 \<le> k \<and> k \<le> 6 \<longrightarrow> loop_delay k = 10"
    "\<forall>k. 7 \<le> k \<longrightarrow> loop_delay k = 60"
    by (auto simp: loop_delay_values)
  have f: "\<forall>j k. j \<le> k \<longrightarrow> loop_delay j \<le> loop_delay k"
    using loop_delay_mono by blast
  from a b c d e f show ?thesis by (intro conjI)
qed

theorem backoff_schedule_witness:
  "\<not> reconnect_evt init_client \<and> \<not> connect_evt init_client \<and> no_connection env_offline
   \<and> filter sleep_or_request (trace (snd (do_reconnect True (\<lambda>_. env_offline) init_client)))
       = filter sleep_or_request (trace init_client) @ timeline 20
   \<and> loop_delay 3 = 2 \<and> loop_delay 4 = 10 \<and> loop_delay 6 = 10 \<and> loop_delay 7 = 60"
proof -
  have h: "\<not> reconnect_evt init_client" "\<not> connect_evt init_client"
    by (simp_all add: init_client_def)
  show ?thesis
    using backoff_schedule [OF h(1), of "\<lambda>_. env_offline"] h no_connection_env_offline
    by simp
qed

subsection \<open>Restoring the topics after a reconnect\<close>

lemma subscribes_deliver [simp]:
  "filter is_Subscribe (trace (deliver c s)) = filter is_Subscribe (trace s)"
proof (cases c)
  case (OnConnect reason_code)
  then show ?thesis
    by (simp add: on_connect_def timer_start_def timer_cancel_def Let_def)
next
  case (OnDisconnect is_connected)
  then show ?thesis
    by (simp add: on_disconnect_def timer_cancel_def create_reconnect_task_def Let_def
             split: option.splits)
next
  case (OnSubscribe mid)
  then show ?thesis
    by (simp add: on_subscribe_def ack_evt_set_def Let_def
             split: option.splits pending_info.splits)
qed

lemma pending_acks_deliver:
  "dom (pending_acks (deliver c s)) \<subseteq> dom (pending_acks s)"
proof (cases c)
  case (OnConnect reason_code)
  then show ?thesis
    by (simp add: on_connect_def timer_start_def timer_cancel_def Let_def)
next
  case (OnDisconnect is_connected)
  then show ?thesis
    by (simp add: on_disconnect_def timer_cancel_def create_reconnect_task_def Let_def
             split: option.splits)
next
  case (OnSubscribe mid)
  then show ?thesis by auto
qed

lemma subscribes_deliver_all [simp]:
  "filter is_Subscribe (trace (deliver_all cbs s)) = filter is_Subscribe (trace s)"
  by (induction cbs arbitrary: s) simp_all

lemma pending_acks_deliver_all:
  "dom (pending_acks (deliver_all cbs s)) \<subseteq> dom (pending_acks s)"
proof (induction cbs arbitrary: s)
  case Nil
  then show ?case by simp
next
  case (Cons c cbs)
  from Cons [of "deliver c s"] pending_acks_deliver [of c s] show ?case by auto
qed

lemma subscribe_with_ack_effect:
  "filter is_Subscribe (trace (snd (subscribe_with_ack topic e s)))
     = filter is_Subscribe (trace s) @ [Subscribe topic]
   \<and> dom (pending_acks (snd (subscribe_with_ack topic e s)))
       \<subseteq> dom (pending_acks s) \<union> {mid. subscribe_returns e = Inr (0, mid)}
   \<and> (fst (subscribe_with_ack topic e s) = Inl CancelledError \<longrightarrow>
        subscribe_returns e = Inl CancelledError \<or> ack_wait_raises e = CancelledError)"
proof (cases "subscribe_returns e")
  case (Inl x)
  then show ?thesis
    by (simp add: subscribe_with_ack_def send_subscribe_def ack_timeout_def Let_def)
next
  case (Inr rm)
  obtain res msg_id where rm: "rm = (res, msg_id)" by (cases rm)
  show ?thesis
  proof (cases "res = 0")
    case False
    with Inr rm show ?thesis
      by (simp add: subscribe_with_ack_def send_subscribe_def Let_def)
  next
    case True
    define s2 where "s2 = (emit (Subscribe topic)
        (s\<lparr>next_evt := Suc (next_evt s), ack_flags := (ack_flags s)(next_evt s := False)\<rparr>))
        \<lparr>pending_acks := (pending_acks s)(msg_id \<mapsto> TopicEvt topic (next_evt s))\<rparr>"
    have send: "send_subscribe topic (subscribe_returns e) s = (Waiting (next_evt s) 0 msg_id, s2)"
      using Inr rm True by (simp add: send_subscribe_def s2_def Let_def)
    have 1: "filter is_Subscribe (trace (deliver_all (ack_callbacks e) s2))
               = filter is_Subscribe (trace s) @ [Subscribe topic]"
      by (simp add: s2_def)
    have "dom (pending_acks s2) = insert msg_id (dom (pending_acks s))"
      by (simp add: s2_def)
    with pending_acks_deliver_all [of "ack_callbacks e" s2]
    have 2: "dom (pending_acks (deliver_all (ack_callbacks e) s2))
               \<subseteq> dom (pending_acks s) \<union> {mid. subscribe_returns e = Inr (0, mid)}"
      using Inr rm True by auto
    show ?thesis
      using send 1 2 by (simp add: subscribe_with_ack_def ack_timeout_def Let_def)
  qed
qed

lemma resubscribe_effect:
  assumes "\<forall>topic\<in>set ts. \<not> cancels (env topic)"
  shows "fst (resubscribe env ts acc s) = None
       \<and> filter is_Subscribe (trace (snd (snd (resubscribe env ts acc s))))
           = filter is_Subscribe (trace s) @ map Subscribe ts
       \<and> dom (pending_acks (snd (snd (resubscribe env ts acc s))))
           \<subseteq> dom (pending_acks s) \<union> issued env ts"
  using assms
proof (induction ts arbitrary: acc s)
  case Nil
  then show ?case by simp
next
  case (Cons topic rest)
  obtain r s1 where sw: "subscribe_with_ack topic (env topic) s = (r, s1)"
    by (cases "subscribe_with_ack topic (env topic) s")
  from subscribe_with_ack_effect [of topic "env topic" s] sw
  have tr: "filter is_Subscribe (trace s1) = filter is_Subscribe (trace s) @ [Subscribe topic]"
    and pa: "dom (pending_acks s1)
               \<subseteq> dom (pending_acks s) \<union> {mid. subscribe_returns (env topic) = Inr (0, mid)}"
    and ca: "r = Inl CancelledError \<longrightarrow>
        subscribe_returns (env topic) = Inl CancelledError
        \<or> ack_wait_raises (env topic) = CancelledError"
    by simp_all
  from Cons.prems have nc: "\<not> cancels (env topic)" and rest: "\<forall>topic\<in>set rest. \<not> cancels (env topic)"
    by simp_all
  have "\<exists>acc' s1'. resubscribe env (topic # rest) acc s = resubscribe env rest acc' s1'
          \<and> (s1' = s1 \<or> (\<exists>m. s1' = emit (Log ERROR m) s1))"
  proof (cases r)
    case (Inr rm)
    obtain res msg_id where rm: "rm = (res, msg_id)" by (cases rm)
    show ?thesis
    proof (cases "res = 0")
      case True
      with Inr rm sw
      have "resubscribe env (topic # rest) acc s = resubscribe env rest (acc @ [topic]) s1"
        by simp
      then show ?thesis by blast
    next
      case False
      with Inr rm sw
      have "resubscribe env (topic # rest) acc s
              = resubscribe env rest acc (emit (Log ERROR ''Failed to re-subscribe to %s: %s'') s1)"
        by simp
      then show ?thesis by blast
    qed
  next
    case (Inl x)
    define x' where "x' = (if x = CancelledError \<and> outer_expired (env topic) then TimeoutError else x)"
    have ex: "is_RequestError x' \<or> is_Exception x'"
    proof (cases "x = CancelledError")
      case True
      with Inl ca nc have "outer_expired (env topic)" by (auto simp: cancels_def)
      with True show ?thesis by (simp add: x'_def)
    next
      case False
      then show ?thesis by (cases x) (simp_all add: x'_def)
    qed
    show ?thesis
    proof (cases "is_RequestError x'")
      case True
      with Inl sw
      have "resubscribe env (topic # rest) acc s
              = resubscribe env rest acc (emit (Log ERROR ''Error re-subscribing to %s: %s'') s1)"
        by (simp add: Let_def x'_def)
      then show ?thesis by blast
    next
      case False
      with ex have "is_Exception x'" by simp
      with False Inl sw
      have "resubscribe env (topic # rest) acc s
              = resubscribe env rest acc
                  (emit (Log ERROR ''Unexpected error re-subscribing to %s: %s'') s1)"
        by (simp add: Let_def x'_def)
      then show ?thesis by blast
    qed
  qed
  then obtain acc' s1' where step: "resubscribe env (topic # rest) acc s = resubscribe env rest acc' s1'"
    and s1': "s1' = s1 \<or> (\<exists>m. s1' = emit (Log ERROR m) s1)"
    by blast
  from s1' have "filter is_Subscribe (trace s1') = filter is_Subscribe (trace s1)"
    and pa': "pending_acks s1' = pending_acks s1"
    by auto
  with tr have tr1: "filter is_Subscribe (trace s1')
                       = filter is_Subscribe (trace s) @ [Subscribe topic]"
    by simp
  have iss: "issued env (topic # rest)
               = {mid. subscribe_returns (env topic) = Inr (0, mid)} \<union> issued env rest"
    by (auto simp: issued_def)
  from Cons.IH [OF rest, of acc' s1']
  have fin: "fst (resubscribe env rest acc' s1') = None"
    "filter is_Subscribe (trace (snd (snd (resubscribe env rest acc' s1'))))
       = filter is_Subscribe (trace s1') @ map Subscribe rest"
    "dom (pending_acks (snd (snd (resubscribe env rest acc' s1'))))
       \<subseteq> dom (pending_acks s1') \<union> issued env rest"
    by simp_all
  from fin(3) pa pa' have "dom (pending_acks (snd (snd (resubscribe env rest acc' s1'))))
       \<subseteq> dom (pending_acks s) \<union> issued env (topic # rest)"
    unfolding iss by auto
  with fin(1,2) tr1 show ?case
    unfolding step by simp
qed


lemma clear_stale_acks_empty: "pending_acks (clear_stale_acks s) = Map.empty"
proof (cases "dom (pending_acks s) = {}")
  case True
  then show ?thesis by (simp add: clear_stale_acks_def)
next
  case False
  have "pending_acks s |` (- dom (pending_acks s)) = Map.empty"
    by (auto simp: restrict_map_def fun_eq_iff)
  with False show ?thesis by (simp add: clear_stale_acks_def Let_def)
qed

lemma clear_stale_acks_fields [simp]:
  "topics (clear_stale_acks s) = topics s"
  "filter is_Subscribe (trace (clear_stale_acks s)) = filter is_Subscribe (trace s)"
  by (simp_all add: clear_stale_acks_def Let_def)

lemma issued_set: "set ts = set ts' \<Longrightarrow> issued env ts = issued env ts'"
  by (simp add: issued_def)

lemma restore_topics_effect:
  assumes "\<forall>topic. \<not> cancels (resub a topic)"
  shows "fst (restore_topics a s) = None
       \<and> filter is_Subscribe (trace (snd (restore_topics a s)))
           = filter is_Subscribe (trace s)
             @ map Subscribe (sort_key (hash_rank a) (remdups (topics s)))
       \<and> dom (pending_acks (snd (restore_topics a s))) \<subseteq> issued (resub a) (topics s)
       \<and> (last (trace (snd (restore_topics a s)))
             = Log WARNING ''Failed to re-subscribe to %d topics: %s''
          \<or> last (trace (snd (restore_topics a s)))
             = Log INFO ''Successfully re-subscribed to all %d topics'')"
proof -
  let ?s1 = "clear_stale_acks s"
  let ?ts = "sort_key (hash_rank a) (remdups (topics ?s1))"
  obtain r succ s2 where rs: "resubscribe (resub a) ?ts [] ?s1 = (r, succ, s2)"
    by (cases "resubscribe (resub a) ?ts [] ?s1") auto
  from assms have "\<forall>topic\<in>set ?ts. \<not> cancels (resub a topic)" by simp
  from resubscribe_effect [OF this, of "[]" ?s1] rs
  have r: "r = None"
    and tr: "filter is_Subscribe (trace s2)
               = filter is_Subscribe (trace s) @ map Subscribe ?ts"
    and pa: "dom (pending_acks s2) \<subseteq> issued (resub a) ?ts"
    by (simp_all add: clear_stale_acks_empty)
  have "issued (resub a) ?ts = issued (resub a) (topics s)"
    by (rule issued_set) simp
  with pa have pa': "dom (pending_acks s2) \<subseteq> issued (resub a) (topics s)" by simp
  show ?thesis
    using rs r tr pa' by (simp add: restore_topics_def Let_def)
qed

lemma deliver_all_append: "deliver_all (xs @ ys) s = deliver_all ys (deliver_all xs s)"
  by (induction xs arbitrary: s) simp_all

lemma wait_connect_evt_woken:
  "connect_evt (deliver_all cbs s) \<Longrightarrow> fst (wait_connect_evt cbs s)"
proof (induction cbs arbitrary: s)
  case Nil
  then show ?case by simp
next
  case (Cons c cbs)
  from Cons.IH [of "deliver c s"] Cons.prems show ?case
    by (cases "wait_connect_evt cbs (deliver c s)") simp
qed

lemma deliver_pending:
  "pending_acks (deliver c s) \<subseteq>\<^sub>m pending_acks s \<and> next_evt (deliver c s) = next_evt s"
proof (cases c)
  case (OnConnect reason_code)
  then show ?thesis
    by (simp add: on_connect_def timer_start_def timer_cancel_def Let_def)
next
  case (OnDisconnect is_connected)
  then show ?thesis
    by (simp add: on_disconnect_def timer_cancel_def create_reconnect_task_def Let_def
             split: option.splits)
next
  case (OnSubscribe mid)
  have "next_evt (on_subscribe mid s) = next_evt s"
    by (simp add: on_subscribe_def ack_evt_set_def Let_def
             split: option.splits pending_info.splits)
  with OnSubscribe show ?thesis
    by (simp add: map_le_def)
qed

lemma deliver_all_pending:
  "pending_acks (deliver_all cbs s) \<subseteq>\<^sub>m pending_acks s
   \<and> next_evt (deliver_all cbs s) = next_evt s"
proof (induction cbs arbitrary: s)
  case Nil
  then show ?case by simp
next
  case (Cons c cbs)
  from Cons [of "deliver c s"] deliver_pending [of c s] show ?case
    by (auto intro: map_le_trans)
qed

lemma deliver_other_key:
  "(\<forall>m. k = Some m \<longrightarrow> c \<noteq> OnSubscribe m) \<Longrightarrow>
     pending_acks (deliver c s) k = pending_acks s k"
proof (cases c)
  case (OnConnect reason_code)
  then show ?thesis
    by (simp add: on_connect_def timer_start_def timer_cancel_def Let_def)
next
  case (OnDisconnect is_connected)
  then show ?thesis
    by (simp add: on_disconnect_def timer_cancel_def create_reconnect_task_def Let_def
             split: option.splits)
next
  case (OnSubscribe mid)
  moreover assume "\<forall>m. k = Some m \<longrightarrow> c \<noteq> OnSubscribe m"
  ultimately show ?thesis by auto
qed

lemma deliver_all_other_key:
  "(\<forall>m. k = Some m \<longrightarrow> OnSubscribe m \<notin> set cbs) \<Longrightarrow>
     pending_acks (deliver_all cbs s) k = pending_acks s k"
proof (induction cbs arbitrary: s)
  case Nil
  then show ?case by simp
next
  case (Cons c cbs)
  from Cons.prems have 1: "\<forall>m. k = Some m \<longrightarrow> c \<noteq> OnSubscribe m"
    and 2: "\<forall>m. k = Some m \<longrightarrow> OnSubscribe m \<notin> set cbs" by auto
  from Cons.IH [OF 2, of "deliver c s"] deliver_other_key [OF 1, of s] show ?case by simp
qed

lemma ack_flags_deliver_mono: "ack_flags s e \<Longrightarrow> ack_flags (deliver c s) e"
proof (cases c)
  case (OnConnect reason_code)
  moreover assume "ack_flags s e"
  ultimately show ?thesis
    by (simp add: on_connect_def timer_start_def timer_cancel_def Let_def)
next
  case (OnDisconnect is_connected)
  moreover assume "ack_flags s e"
  ultimately show ?thesis
    by (simp add: on_disconnect_def timer_cancel_def create_reconnect_task_def Let_def
             split: option.splits)
next
  case (OnSubscribe mid)
  moreover assume "ack_flags s e"
  ultimately show ?thesis
    by (simp add: on_subscribe_def ack_evt_set_def Let_def
             split: option.splits pending_info.splits)
qed

lemma ack_flags_deliver_all_mono: "ack_flags s e \<Longrightarrow> ack_flags (deliver_all cbs s) e"
  by (induction cbs arbitrary: s) (simp_all add: ack_flags_deliver_mono)

lemma ack_arrives:
  "pending_acks s (Some m) = Some (TopicEvt topic e) \<Longrightarrow> OnSubscribe m \<in> set cbs \<Longrightarrow>
     ack_flags (deliver_all cbs s) e"
proof (induction cbs arbitrary: s)
  case Nil
  then show ?case by simp
next
  case (Cons c cbs)
  show ?case
  proof (cases "c = OnSubscribe m")
    case True
    with Cons.prems(1) have "ack_flags (deliver c s) e"
      by (simp add: on_subscribe_def ack_evt_set_def Let_def)
    then show ?thesis by (simp add: ack_flags_deliver_all_mono)
  next
    case False
    with Cons.prems(2) have mem: "OnSubscribe m \<in> set cbs" by simp
    from False have "pending_acks (deliver c s) (Some m) = pending_acks s (Some m)"
      by (intro deliver_other_key) simp
    with Cons.prems(1) have "pending_acks (deliver c s) (Some m) = Some (TopicEvt topic e)"
      by simp
    from Cons.IH [OF this mem] show ?thesis by simp
  qed
qed

lemma ack_missing:
  "\<not> ack_flags s e \<Longrightarrow>
   \<forall>m topic. pending_acks s (Some m) = Some (TopicEvt topic e) \<longrightarrow> OnSubscribe m \<notin> set cbs \<Longrightarrow>
     \<not> ack_flags (deliver_all cbs s) e"
proof (induction cbs arbitrary: s)
  case Nil
  then show ?case by simp
next
  case (Cons c cbs)
  have 1: "\<not> ack_flags (deliver c s) e"
  proof (cases c)
    case (OnConnect reason_code)
    with Cons.prems(1) show ?thesis
      by (simp add: on_connect_def timer_start_def timer_cancel_def Let_def)
  next
    case (OnDisconnect is_connected)
    with Cons.prems(1) show ?thesis
      by (simp add: on_disconnect_def timer_cancel_def create_reconnect_task_def Let_def
               split: option.splits)
  next
    case (OnSubscribe mid)
    with Cons.prems(2) have "\<forall>topic. pending_acks s (Some mid) \<noteq> Some (TopicEvt topic e)"
      by auto
    with OnSubscribe Cons.prems(1) show ?thesis
      by (auto simp: on_subscribe_def ack_evt_set_def Let_def
               split: option.splits pending_info.splits)
  qed
  have 2: "\<forall>m topic. pending_acks (deliver c s) (Some m) = Some (TopicEvt topic e)
             \<longrightarrow> OnSubscribe m \<notin> set cbs"
  proof (intro allI impI)
    fix m topic
    assume "pending_acks (deliver c s) (Some m) = Some (TopicEvt topic e)"
    with deliver_pending [of c s] have "pending_acks s (Some m) = Some (TopicEvt topic e)"
      by (auto simp: map_le_def dom_def)
    with Cons.prems(2) show "OnSubscribe m \<notin> set cbs" by auto
  qed
  from Cons.IH [OF 1 2] show ?case by simp
qed


lemma subscribe_with_ack_acked:
  assumes "events_allocated s"
  shows "(\<exists>mid. fst (subscribe_with_ack topic e s) = Inr (0, mid)) = acked e
       \<and> events_allocated (snd (subscribe_with_ack topic e s))
       \<and> ((k \<in> dom (pending_acks s) \<or> subscribe_returns e = Inr (0, k))
            \<and> (\<forall>m. k = Some m \<longrightarrow> OnSubscribe m \<notin> set (ack_callbacks e))
          \<longrightarrow> k \<in> dom (pending_acks (snd (subscribe_with_ack topic e s))))"
proof (cases "subscribe_returns e")
  case (Inl x)
  with assms show ?thesis
    by (auto simp: subscribe_with_ack_def send_subscribe_def acked_def events_allocated_def
                   Let_def less_Suc_eq)
next
  case (Inr rm)
  obtain res msg_id where rm: "rm = (res, msg_id)" by (cases rm)
  show ?thesis
  proof (cases "res = 0")
    case False
    with Inr rm assms show ?thesis
      by (auto simp: subscribe_with_ack_def send_subscribe_def acked_def events_allocated_def
                     Let_def less_Suc_eq)
  next
    case True
    define evt where "evt = next_evt s"
    define s2 where "s2 = (emit (Subscribe topic)
        (s\<lparr>next_evt := Suc evt, ack_flags := (ack_flags s)(evt := False)\<rparr>))
        \<lparr>pending_acks := (pending_acks s)(msg_id \<mapsto> TopicEvt topic evt)\<rparr>"
    define s3 where "s3 = deliver_all (ack_callbacks e) s2"
    have send: "send_subscribe topic (subscribe_returns e) s = (Waiting evt 0 msg_id, s2)"
      using Inr rm True by (simp add: send_subscribe_def s2_def evt_def Let_def)
    have res: "subscribe_with_ack topic e s
                 = (if ack_flags s3 evt then Inr (0, msg_id)
                    else Inl (ack_timeout (ack_wait_raises e)), s3)"
      using send by (simp add: subscribe_with_ack_def s3_def Let_def)
    have s2p: "pending_acks s2 = (pending_acks s)(msg_id \<mapsto> TopicEvt topic evt)"
      "next_evt s2 = Suc evt" "\<not> ack_flags s2 evt"
      by (simp_all add: s2_def)
    have flag: "ack_flags s3 evt = acked e"
    proof (cases "acked e")
      case True
      with Inr rm obtain m where m: "msg_id = Some m" "OnSubscribe m \<in> set (ack_callbacks e)"
        by (auto simp: acked_def)
      from s2p(1) m(1) have "pending_acks s2 (Some m) = Some (TopicEvt topic evt)" by simp
      from ack_arrives [OF this m(2)] True show ?thesis by (simp add: s3_def)
    next
      case False
      with Inr rm \<open>res = 0\<close>
      have na: "\<forall>m. msg_id = Some m \<longrightarrow> OnSubscribe m \<notin> set (ack_callbacks e)"
        by (auto simp: acked_def)
      have "\<forall>m topic'. pending_acks s2 (Some m) = Some (TopicEvt topic' evt)
              \<longrightarrow> OnSubscribe m \<notin> set (ack_callbacks e)"
      proof (intro allI impI)
        fix m topic'
        assume p: "pending_acks s2 (Some m) = Some (TopicEvt topic' evt)"
        show "OnSubscribe m \<notin> set (ack_callbacks e)"
        proof (cases "msg_id = Some m")
          case True
          with na show ?thesis by simp
        next
          case False
          with p s2p(1) have "pending_acks s (Some m) = Some (TopicEvt topic' evt)" by simp
          with assms have "evt < next_evt s" by (auto simp: events_allocated_def)
          then show ?thesis by (simp add: evt_def)
        qed
      qed
      from ack_missing [OF s2p(3) this] False show ?thesis by (simp add: s3_def)
    qed
    have a: "(\<exists>mid. fst (subscribe_with_ack topic e s) = Inr (0, mid)) = acked e"
      using flag by (simp add: res)
    from deliver_all_pending [of "ack_callbacks e" s2]
    have le: "pending_acks s3 \<subseteq>\<^sub>m pending_acks s2" and ne: "next_evt s3 = Suc evt"
      by (simp_all add: s3_def s2p)
    have "events_allocated s2"
      using assms by (auto simp: events_allocated_def s2p evt_def less_Suc_eq)
    with le ne s2p(2) have b: "events_allocated (snd (subscribe_with_ack topic e s))"
      by (fastforce simp: events_allocated_def res map_le_def dom_def)
    have c: "k \<in> dom (pending_acks (snd (subscribe_with_ack topic e s)))"
      if k: "k \<in> dom (pending_acks s) \<or> subscribe_returns e = Inr (0, k)"
        and nk: "\<forall>m. k = Some m \<longrightarrow> OnSubscribe m \<notin> set (ack_callbacks e)"
    proof -
      from k Inr rm have "k \<in> dom (pending_acks s2)" by (auto simp: s2p)
      moreover from deliver_all_other_key [OF nk, of s2]
      have "pending_acks s3 k = pending_acks s2 k" by (simp add: s3_def)
      ultimately show ?thesis by (auto simp: res)
    qed
    from a b c show ?thesis by blast
  qed
qed


lemma events_allocated_emit [simp]: "events_allocated (emit ev s) = events_allocated s"
  by (simp add: events_allocated_def)

lemma resubscribe_step:
  assumes "\<not> cancels (env topic)" and "events_allocated s"
  shows "\<exists>s1'. resubscribe env (topic # rest) acc s
                 = resubscribe env rest (if acked (env topic) then acc @ [topic] else acc) s1'
           \<and> events_allocated s1'
           \<and> pending_acks s1' = pending_acks (snd (subscribe_with_ack topic (env topic) s))"
proof -
  obtain r s1 where sw: "subscribe_with_ack topic (env topic) s = (r, s1)"
    by (cases "subscribe_with_ack topic (env topic) s")
  from subscribe_with_ack_acked [OF assms(2), of topic "env topic"] sw
  have ack: "(\<exists>mid. r = Inr (0, mid)) = acked (env topic)" and al: "events_allocated s1"
    by simp_all
  from subscribe_with_ack_effect [of topic "env topic" s] sw
  have ca: "r = Inl CancelledError \<longrightarrow>
        subscribe_returns (env topic) = Inl CancelledError
        \<or> ack_wait_raises (env topic) = CancelledError"
    by simp
  show ?thesis
  proof (cases r)
    case (Inr rm)
    obtain res msg_id where rm: "rm = (res, msg_id)" by (cases rm)
    show ?thesis
    proof (cases "res = 0")
      case True
      with Inr rm ack have "acked (env topic)" by auto
      with True Inr rm sw al show ?thesis by auto
    next
      case False
      with Inr rm ack have "\<not> acked (env topic)" by auto
      with False Inr rm sw al show ?thesis by auto
    qed
  next
    case (Inl x)
    with ack have na: "\<not> acked (env topic)" by auto
    define x' where "x' = (if x = CancelledError \<and> outer_expired (env topic) then TimeoutError else x)"
    have ex: "is_RequestError x' \<or> is_Exception x'"
    proof (cases "x = CancelledError")
      case True
      with Inl ca assms(1) have "outer_expired (env topic)" by (auto simp: cancels_def)
      with True show ?thesis by (simp add: x'_def)
    next
      case False
      then show ?thesis by (cases x) (simp_all add: x'_def)
    qed
    show ?thesis
    proof (cases "is_RequestError x'")
      case True
      with Inl sw na al show ?thesis
        by (auto simp: Let_def x'_def)
    next
      case False
      with ex have "is_Exception x'" by simp
      with False Inl sw na al show ?thesis
        by (auto simp: Let_def x'_def)
    qed
  qed
qed

lemma resubscribe_outcome:
  assumes "\<forall>topic\<in>set ts. \<not> cancels (env topic)" and "events_allocated s"
  shows "fst (snd (resubscribe env ts acc s)) = acc @ filter (\<lambda>topic. acked (env topic)) ts
       \<and> ((k \<in> dom (pending_acks s) \<or> k \<in> issued env ts)
            \<and> (\<forall>m. k = Some m \<longrightarrow>
                  (\<forall>topic\<in>set ts. OnSubscribe m \<notin> set (ack_callbacks (env topic))))
          \<longrightarrow> k \<in> dom (pending_acks (snd (snd (resubscribe env ts acc s)))))"
  using assms
proof (induction ts arbitrary: acc s)
  case Nil
  then show ?case by (simp add: issued_def)
next
  case (Cons topic rest)
  from Cons.prems have nc: "\<not> cancels (env topic)"
    and rest: "\<forall>topic\<in>set rest. \<not> cancels (env topic)" by simp_all
  let ?acc' = "if acked (env topic) then acc @ [topic] else acc"
  from resubscribe_step [where env = env and topic = topic and s = s and rest = rest
                           and acc = acc, OF nc Cons.prems(2)]
  obtain s1' where step: "resubscribe env (topic # rest) acc s = resubscribe env rest ?acc' s1'"
    and al: "events_allocated s1'"
    and pa: "pending_acks s1' = pending_acks (snd (subscribe_with_ack topic (env topic) s))"
    by blast
  note ih = Cons.IH [OF rest al, of ?acc']
  have a: "fst (snd (resubscribe env (topic # rest) acc s))
             = acc @ filter (\<lambda>topic. acked (env topic)) (topic # rest)"
    unfolding step using ih by simp
  have b: "k \<in> dom (pending_acks (snd (snd (resubscribe env (topic # rest) acc s))))"
    if k: "k \<in> dom (pending_acks s) \<or> k \<in> issued env (topic # rest)"
      and nk: "\<forall>m. k = Some m \<longrightarrow>
                  (\<forall>topic\<in>set (topic # rest). OnSubscribe m \<notin> set (ack_callbacks (env topic)))"
  proof -
    from nk have nk1: "\<forall>m. k = Some m \<longrightarrow> OnSubscribe m \<notin> set (ack_callbacks (env topic))"
      and nk2: "\<forall>m. k = Some m \<longrightarrow>
                  (\<forall>topic\<in>set rest. OnSubscribe m \<notin> set (ack_callbacks (env topic)))"
      by simp_all
    from k have "k \<in> dom (pending_acks s) \<or> subscribe_returns (env topic) = Inr (0, k)
                   \<or> k \<in> issued env rest"
      by (auto simp: issued_def)
    moreover have "k \<in> dom (pending_acks s1')"
      if "k \<in> dom (pending_acks s) \<or> subscribe_returns (env topic) = Inr (0, k)"
      using subscribe_with_ack_acked [OF Cons.prems(2), of topic "env topic" k] that nk1 pa
      by simp
    ultimately have "k \<in> dom (pending_acks s1') \<or> k \<in> issued env rest" by blast
    with ih nk2 show ?thesis unfolding step by blast
  qed
  from a b show ?case by blast
qed


lemma events_allocated_clear_stale_acks: "events_allocated (clear_stale_acks s)"
  using clear_stale_acks_empty [of s] by (simp add: events_allocated_def)

lemma restore_topics_outcome:
  assumes "\<forall>topic. \<not> cancels (resub a topic)"
  shows "last (trace (snd (restore_topics a s)))
           = (if \<forall>topic\<in>set (topics s). acked (resub a topic)
              then Log INFO ''Successfully re-subscribed to all %d topics''
              else Log WARNING ''Failed to re-subscribe to %d topics: %s'')
       \<and> (k \<in> issued (resub a) (topics s)
            \<and> (\<forall>m. k = Some m \<longrightarrow>
                  (\<forall>topic\<in>set (topics s). OnSubscribe m \<notin> set (ack_callbacks (resub a topic))))
          \<longrightarrow> k \<in> dom (pending_acks (snd (restore_topics a s))))"
proof -
  let ?s1 = "clear_stale_acks s"
  let ?ts = "sort_key (hash_rank a) (remdups (topics ?s1))"
  obtain r succ s2 where rs: "resubscribe (resub a) ?ts [] ?s1 = (r, succ, s2)"
    by (cases "resubscribe (resub a) ?ts [] ?s1") auto
  from assms have nc: "\<forall>topic\<in>set ?ts. \<not> cancels (resub a topic)" by simp
  from resubscribe_effect [OF nc, of "[]" ?s1] rs have r: "r = None" by simp
  note o = resubscribe_outcome [where acc = "[]" and k = k,
                                OF nc events_allocated_clear_stale_acks [of s]]
  from o rs have succ: "succ = filter (\<lambda>topic. acked (resub a topic)) ?ts" by simp
  have ts: "set ?ts = set (topics s)" by simp
  have "(set succ \<noteq> set ?ts) = (\<not> (\<forall>topic\<in>set (topics s). acked (resub a topic)))"
    unfolding succ using ts by auto
  with rs r have a: "last (trace (snd (restore_topics a s)))
           = (if \<forall>topic\<in>set (topics s). acked (resub a topic)
              then Log INFO ''Successfully re-subscribed to all %d topics''
              else Log WARNING ''Failed to re-subscribe to %d topics: %s'')"
    by (simp add: restore_topics_def Let_def)
  have b: "k \<in> dom (pending_acks (snd (restore_topics a s)))"
    if k: "k \<in> issued (resub a) (topics s)"
      and nk: "\<forall>m. k = Some m \<longrightarrow>
                  (\<forall>topic\<in>set (topics s). OnSubscribe m \<notin> set (ack_callbacks (resub a topic)))"
  proof -
    from k have "k \<in> issued (resub a) ?ts"
      using issued_set [of ?ts "topics s" "resub a"] by simp
    moreover from nk have "\<forall>m. k = Some m \<longrightarrow>
                  (\<forall>topic\<in>set ?ts. OnSubscribe m \<notin> set (ack_callbacks (resub a topic)))"
      by simp
    ultimately have "k \<in> dom (pending_acks (snd (snd (resubscribe (resub a) ?ts [] ?s1))))"
      using o by blast
    with rs r show ?thesis by (simp add: restore_topics_def Let_def)
  qed
  from a b show ?thesis by blast
qed

lemma connection_observed:
  assumes "connect_evt (deliver_all (wait_callbacks a) s)"
    and "\<forall>topic. \<not> cancels (resub a topic)"
  shows "await_connection a s
           = (Inr True, snd (restore_topics a (deliver_all (wait_callbacks a) s)))"
proof -
  let ?s4 = "deliver_all (wait_callbacks a) s"
  obtain w s4 where w: "wait_connect_evt (wait_callbacks a) s = (w, s4)"
    by (cases "wait_connect_evt (wait_callbacks a) s")
  with wait_connect_evt_state [of "wait_callbacks a" s] have s4: "s4 = ?s4" by simp
  from wait_connect_evt_woken [OF assms(1)] w have "w" by simp
  obtain r s5 where r: "restore_topics a ?s4 = (r, s5)"
    by (cases "restore_topics a ?s4")
  with restore_topics_effect [OF assms(2), of ?s4] have "r = None" by simp
  with w s4 \<open>w\<close> assms(1) r show ?thesis
    by (simp add: await_connection_def)
qed

lemma loop_exits_on_connection:
  assumes "n < max_attempts" and "first \<or> sleep_raises (env n) = None"
    and "get_mqtt_info (response (env n)) = Inr (h, path)"
    and "connect_raises (env n) = None"
    and "connect_evt (observed_at (env n) first n t h s)"
    and "\<forall>topic. \<not> cancels (resub (env n) topic)"
  shows "reconnect_loop env first n t last_err s
           = (None, Suc n, snd (restore_topics (env n) (observed_at (env n) first n t h s)))"
proof -
  define a where "a = env n"
  define t1 where "t1 = (if first then t else throttle n t)"
  define s1 where "s1 = (if first then s
                   else deliver_all (sleep_callbacks a)
                          (emit (Sleep t1) (log DEBUG ''MQTT throttle for %s seconds'' s)))"
  define raised where "raised = (\<not> first \<and> sleep_raises a \<noteq> None)"
  have unfold: "reconnect_loop env first n t last_err s =
       (if raised then (sleep_raises a, n, s1)
        else
          (case attempt a last_err s1 of
             (Break, last_err', s2) \<Rightarrow> (None, Suc n, s2)
           | (Continue, last_err', s2) \<Rightarrow> reconnect_loop env False (Suc n) t1 last_err' s2
           | (Raise e, last_err', s2) \<Rightarrow> (Some e, Suc n, s2)))"
    unfolding a_def t1_def s1_def raised_def
    by (subst reconnect_loop.simps) (simp only: assms(1) if_True Let_def)
  have nr: "\<not> raised" using assms(2) by (auto simp: raised_def a_def)
  define s3 where "s3 = deliver_all (connect_callbacks a)
      (emit (Connect h) (emit (Log INFO ''Attempting to reconnnect...'')
         ((deliver_all (request_callbacks a) (emit Request s1))\<lparr>host := Some h\<rparr>)))"
  have tc: "try_connect a s1 = await_connection a s3"
    using assms(3,4) unfolding s3_def a_def
    by (simp add: try_connect_def Let_def)
  have ob: "observed_at a first n t h s = deliver_all (wait_callbacks a) s3"
    by (simp add: observed_at_def s3_def s1_def t1_def)
  from assms(5) ob have ce: "connect_evt (deliver_all (wait_callbacks a) s3)"
    by (simp add: a_def)
  have aw: "await_connection a s3 = (Inr True, snd (restore_topics a (observed_at a first n t h s)))"
    unfolding ob using connection_observed [OF ce] assms(6) by (simp add: a_def)
  from tc aw have "attempt a last_err s1
      = (Break, last_err, snd (restore_topics a (observed_at a first n t h s)))"
    by (simp add: attempt_def)
  with unfold nr show ?thesis
    by (simp add: a_def)
qed


text \<open>
  Claim C6. Let no cancellation from outside interrupt the resubscription. Then the
  restoration that follows an observed connection ends without an exception, whatever the
  subscribe calls return or raise. It empties the pending acknowledgments first and then
  calls the ack-verified subscribe once for each topic of the topic set, without
  repetition and whatever the order of the list: the entries pending afterwards all come
  from these calls, and the entry of every such call that gets no acknowledgment is still
  pending. Its last effect is the summary line of the log, the success line if every call
  was acknowledged and the warning about failed topics otherwise. A loop iteration that
  obtains the connection info, whose connect call returns and whose waiter finds the
  connected event set when it resumes, ends the loop after this attempt, without an
  exception, in the state that the restoration leaves from the state in which the
  connection was observed.
\<close>

theorem reconnect_restores_topics:
  assumes "\<forall>topic. \<not> cancels (resub (env n) topic)"
  shows "pending_acks (clear_stale_acks s) = Map.empty
       \<and> fst (restore_topics (env n) s) = None
       \<and> (\<exists>ts. distinct ts \<and> set ts = set (topics s)
             \<and> filter is_Subscribe (trace (snd (restore_topics (env n) s)))
                 = filter is_Subscribe (trace s) @ map Subscribe ts)
       \<and> dom (pending_acks (snd (restore_topics (env n) s)))
           \<subseteq> issued (resub (env n)) (topics s)
       \<and> (\<forall>k. k \<in> issued (resub (env n)) (topics s)
              \<and> (\<forall>m. k = Some m \<longrightarrow>
                    (\<forall>topic\<in>set (topics s).
                        OnSubscribe m \<notin> set (ack_callbacks (resub (env n) topic))))
            \<longrightarrow> k \<in> dom (pending_acks (snd (restore_topics (env n) s))))
       \<and> last (trace (snd (restore_topics (env n) s)))
           = (if \<forall>topic\<in>set (topics s). acked (resub (env n) topic)
              then Log INFO ''Successfully re-subscribed to all %d topics''
              else Log WARNING ''Failed to re-subscribe to %d topics: %s'')
       \<and> (n < max_attempts \<and> (first \<or> sleep_raises (env n) = None)
            \<and> get_mqtt_info (response (env n)) = Inr (h, path)
            \<and> connect_raises (env n) = None
            \<and> connect_evt (observed_at (env n) first n t h s0)
          \<longrightarrow> reconnect_loop env first n t last_err s0
                = (None, Suc n,
                   snd (restore_topics (env n) (observed_at (env n) first n t h s0))))"
proof -
  note e = restore_topics_effect [OF assms, of s]
  have a: "pending_acks (clear_stale_acks s) = Map.empty"
    by (rule clear_stale_acks_empty)
  have b: "fst (restore_topics (env n) s) = None"
    using e by simp
  have "distinct (sort_key (hash_rank (env n)) (remdups (topics s)))"
    "set (sort_key (hash_rank (env n)) (remdups (topics s))) = set (topics s)"
    by simp_all
  with e have c: "\<exists>ts. distinct ts \<and> set ts = set (topics s)
             \<and> filter is_Subscribe (trace (snd (restore_topics (env n) s)))
                 = filter is_Subscribe (trace s) @ map Subscribe ts"
    by blast
  have d: "dom (pending_acks (snd (restore_topics (env n) s)))
           \<subseteq> issued (resub (env n)) (topics s)"
    using e by simp
  have f: "\<forall>k. k \<in> issued (resub (env n)) (topics s)
              \<and> (\<forall>m. k = Some m \<longrightarrow>
                    (\<forall>topic\<in>set (topics s).
                        OnSubscribe m \<notin> set (ack_callbacks (resub (env n) topic))))
            \<longrightarrow> k \<in> dom (pending_acks (snd (restore_topics (env n) s)))"
    using restore_topics_outcome [OF assms, of s] by blast
  have g: "last (trace (snd (restore_topics (env n) s)))
           = (if \<forall>topic\<in>set (topics s). acked (resub (env n) topic)
              then Log INFO ''Successfully re-subscribed to all %d topics''
              else Log WARNING ''Failed to re-subscribe to %d topics: %s'')"
    using restore_topics_outcome [OF assms, of s] by blast
  have i: "n < max_attempts \<and> (first \<or> sleep_raises (env n) = None)
            \<and> get_mqtt_info (response (env n)) = Inr (h, path)
            \<and> connect_raises (env n) = None
            \<and> connect_evt (observed_at (env n) first n t h s0)
          \<longrightarrow> reconnect_loop env first n t last_err s0
                = (None, Suc n,
                   snd (restore_topics (env n) (observed_at (env n) first n t h s0)))"
    using loop_exits_on_connection [where n = n and first = first and env = env and h = h
            and path = path and t = t and s = s0 and last_err = last_err] assms
    by blast
  from a b c d f g i show ?thesis by (intro conjI)
qed

theorem reconnect_restores_topics_witness:
  "\<not> cancels (sub_acked 1) \<and> \<not> cancels (sub_silent 2)
   \<and> get_mqtt_info (response env_mixed) = Inr (''broker.example.com'', ''/mqtt?token=1'')
   \<and> connect_evt (observed_at env_mixed True 0 2 ''broker.example.com'' client_subscribed)
   \<and> fst (restore_topics env_mixed client_subscribed) = None
   \<and> Some 5 \<notin> dom (pending_acks (snd (restore_topics env_mixed client_subscribed)))
   \<and> Some 2 \<in> dom (pending_acks (snd (restore_topics env_mixed client_subscribed)))
   \<and> last (trace (snd (restore_topics env_mixed client_subscribed)))
       = Log WARNING ''Failed to re-subscribe to %d topics: %s''
   \<and> reconnect_loop (\<lambda>_. env_mixed) True 0 2 (PyException []) client_subscribed
       = (None, Suc 0,
          snd (restore_topics env_mixed
                 (observed_at env_mixed True 0 2 ''broker.example.com'' client_subscribed)))"
proof -
  have nc: "\<not> cancels (sub_acked 1)" "\<not> cancels (sub_silent 2)"
    by (simp_all add: cancels_def sub_acked_def sub_silent_def)
  then have h: "\<forall>topic. \<not> cancels (resub env_mixed topic)"
    by (simp add: env_mixed_def env_online_def)
  have i: "get_mqtt_info (response env_mixed) = Inr (''broker.example.com'', ''/mqtt?token=1'')"
    by (simp add: env_mixed_def env_online_def get_mqtt_info_def match_wss_def host_char_def)
  have ce: "connect_evt (observed_at env_mixed True 0 2 ''broker.example.com'' client_subscribed)"
    by (simp add: observed_at_def env_mixed_def env_online_def on_connect_def
                  timer_start_def Let_def)
  have p: "connect_raises env_mixed = None" "(0::nat) < max_attempts"
    by (simp_all add: env_mixed_def env_online_def max_attempts_def)
  have tp: "topics client_subscribed = [''prd/a'', ''prd/b'']"
    by (simp add: client_subscribed_def)
  have is1: "issued (resub env_mixed) (topics client_subscribed) = {Some 1, Some 2}"
    by (auto simp: issued_def tp env_mixed_def env_online_def sub_acked_def sub_silent_def)
  have na: "\<not> (\<forall>topic\<in>set (topics client_subscribed). acked (resub env_mixed topic))"
    by (simp add: tp env_mixed_def env_online_def acked_def sub_acked_def sub_silent_def)
  have nk: "\<forall>m. Some (2::nat) = Some m \<longrightarrow>
              (\<forall>topic\<in>set (topics client_subscribed).
                  OnSubscribe m \<notin> set (ack_callbacks (resub env_mixed topic)))"
    by (simp add: tp env_mixed_def env_online_def sub_acked_def sub_silent_def)
  note t = reconnect_restores_topics
             [where env = "\<lambda>_. env_mixed" and n = 0 and s = client_subscribed and first = True
                and t = 2 and last_err = "PyException []" and ?s0.0 = client_subscribed
                and h = "''broker.example.com''" and path = "''/mqtt?token=1''", OF h]
  from t have 1: "fst (restore_topics env_mixed client_subscribed) = None"
    by simp
  note t4 = t [THEN conjunct2, THEN conjunct2, THEN conjunct2, THEN conjunct1]
  from t4 is1 have 2: "Some 5 \<notin> dom (pending_acks (snd (restore_topics env_mixed client_subscribed)))"
    by auto
  note t5 = t [THEN conjunct2, THEN conjunct2, THEN conjunct2, THEN conjunct2, THEN conjunct1]
  from t5 is1 nk have 3: "Some 2 \<in> dom (pending_acks (snd (restore_topics env_mixed client_subscribed)))"
    by blast
  from t na have 4: "last (trace (snd (restore_topics env_mixed client_subscribed)))
       = Log WARNING ''Failed to re-subscribe to %d topics: %s''"
    by simp
  from t i ce p have 5: "reconnect_loop (\<lambda>_. env_mixed) True 0 2 (PyException []) client_subscribed
       = (None, Suc 0,
          snd (restore_topics env_mixed
                 (observed_at env_mixed True 0 2 ''broker.example.com'' client_subscribed)))"
    by simp
  from nc i ce 1 2 3 4 5 show ?thesis by (intro conjI)
qed

subsection \<open>Correlation of acknowledgments\<close>












end
